theory Spec2Isabelle
  imports Complex_Main
begin

section \<open>Data model of the creep simulation (core.js)\<close>

text \<open>
  The simulation keeps its world in global variables; here they are the fields of the
  record \<open>world\<close>. JavaScript numbers that hold grid coordinates, indices and counters
  are integers and are modelled by \<open>int\<close>; numbers that hold heights, ages, noise and
  probabilities are modelled by \<open>real\<close> (the rounding of the 32- and 64-bit floating
  point formats is not part of the model). Typed arrays are lists.
\<close>

subsection \<open>Typed arrays\<close>

text \<open>
  Reading a typed array outside its range yields \<open>undefined\<close> (here \<open>None\<close>);
  writing outside its range is silently ignored.
\<close>

definition rd :: "'a list \<Rightarrow> int \<Rightarrow> 'a option" where
  "rd xs i = (if 0 \<le> i \<and> i < int (length xs) then Some (xs ! nat i) else None)"

definition wr :: "'a list \<Rightarrow> int \<Rightarrow> 'a \<Rightarrow> 'a list" where
  "wr xs i v = (if 0 \<le> i \<and> i < int (length xs) then xs[nat i := v] else xs)"

text \<open>The remainder operator \<open>%\<close> on integers takes the sign of the dividend.\<close>

definition jsRem :: "int \<Rightarrow> int \<Rightarrow> int" where
  "jsRem a b = sgn a * (\<bar>a\<bar> mod \<bar>b\<bar>)"

subsection \<open>Sets of cell indices\<close>

text \<open>
  A JavaScript \<open>Set\<close> keeps its members in insertion order and iterates in that order;
  a member added while an iteration is running is appended and is reached by that
  iteration. A set of indices is therefore a duplicate-free list.
\<close>

definition setAdd :: "int list \<Rightarrow> int \<Rightarrow> int list" where
  "setAdd s i = (if i \<in> set s then s else s @ [i])"

definition setDelete :: "int list \<Rightarrow> int \<Rightarrow> int list" where
  "setDelete s i = removeAll i s"

subsection \<open>The random source\<close>

text \<open>
  \<open>Math.random()\<close> returns a number in \<open>[0, 1)\<close>. The successive results are given
  by a function from the number of calls made so far; the world counts the calls in
  \<open>drawn\<close>.
\<close>

typedef draw = "{r :: real. 0 \<le> r \<and> r < 1}"
  by (rule exI [of _ 0]) simp

setup_lifting type_definition_draw

lift_definition mkDraw :: "real \<Rightarrow> draw" is "\<lambda>r. if 0 \<le> r \<and> r < 1 then r else 0"
  by simp

type_synonym rand = "nat \<Rightarrow> draw"

subsection \<open>Records\<close>

record deposit =
  depX :: int
  depY :: int
  depRadius :: real
  depleted :: bool

datatype building_kind = hatchery | mineralpatch | extractor

record building =
  bldX :: int
  bldY :: int
  bldType :: building_kind
  pulse :: real

record corner =
  cornerX :: int
  cornerY :: int
  dirX :: int
  dirY :: int

record world =
  cols :: int
  rows :: int
  creepGrid :: "nat list"
  creepAge :: "real list"
  terrainHeight :: "real list"
  terrainType :: "nat list"
  noiseTexture1 :: "real list"
  minerals :: "deposit list"
  vespene :: "deposit list"
  buildings :: "building list"
  startCorner :: corner
  totalVisibleCells :: int
  isSaturated :: bool
  creepCount :: int
  resourceBoost :: real
  mineralsGathered :: int
  vespeneGathered :: int
  activeEdges :: "int list"
  drawn :: nat

definition HATCHERY_MINERAL_COST :: int where
  "HATCHERY_MINERAL_COST = 2"

definition HATCHERY_VESPENE_COST :: int where
  "HATCHERY_VESPENE_COST = 1"

definition HATCHERY_SPAWN_CHANCE :: real where
  "HATCHERY_SPAWN_CHANCE = 0.55"

definition terrainSpreadMods :: "real list" where
  "terrainSpreadMods = [1.0, 0.9, 0.75, 0.2, 0.15]"

section \<open>Structure spawning: maybeSpawnHatcheryNear\<close>

definition inGrid :: "world \<Rightarrow> int \<Rightarrow> int \<Rightarrow> bool" where
  "inGrid w x y = (\<not> (x < 0 \<or> x \<ge> cols w \<or> y < 0 \<or> y \<ge> rows w))"

text \<open>\<open>terrainType[idx] <= 2\<close>: false when the read is \<open>undefined\<close>.\<close>

definition walkable :: "world \<Rightarrow> int \<Rightarrow> bool" where
  "walkable w idx = (case rd (terrainType w) idx of Some t \<Rightarrow> t \<le> 2 | None \<Rightarrow> False)"

text \<open>\<open>creepGrid[idx]\<close> used as a condition: true for a non-zero cell.\<close>

definition creepAt :: "world \<Rightarrow> int \<Rightarrow> bool" where
  "creepAt w idx = (case rd (creepGrid w) idx of Some c \<Rightarrow> c \<noteq> 0 | None \<Rightarrow> False)"

text \<open>The offsets of a square of radius \<open>r\<close>, \<open>dy\<close> in the outer and \<open>dx\<close> in the inner loop.\<close>

definition square :: "int list \<Rightarrow> (int \<times> int) list" where
  "square ds = concat (map (\<lambda>dy. map (\<lambda>dx. (dx, dy)) ds) ds)"

definition candidates :: "world \<Rightarrow> int \<Rightarrow> int \<Rightarrow> (int \<times> int) list" where
  "candidates w tileX tileY =
     filter (\<lambda>(x, y). inGrid w x y \<and> walkable w (y * cols w + x) \<and> creepAt w (y * cols w + x))
       (map (\<lambda>(dx, dy). (tileX + dx, tileY + dy)) (square [-4, -3, -2, -1, 0, 1, 2, 3, 4]))"

text \<open>The body of the 3x3 loop around the chosen cell.\<close>

definition hatchCell :: "int \<times> int \<Rightarrow> world \<Rightarrow> world" where
  "hatchCell p w =
     (let x = fst p; y = snd p in
      if \<not> inGrid w x y then w
      else let idx = y * cols w + x in
        if walkable w idx then
          (if \<not> creepAt w idx then
             w\<lparr>creepGrid := wr (creepGrid w) idx 1,
               creepAge := wr (creepAge w) idx 20,
               activeEdges := setAdd (activeEdges w) idx,
               creepCount := creepCount w + 1\<rparr>
           else
             w\<lparr>creepAge := (case rd (creepAge w) idx of
                              Some a \<Rightarrow> wr (creepAge w) idx (max a 20)
                            | None \<Rightarrow> creepAge w)\<rparr>)
        else w)"

definition hatchArea :: "int \<times> int \<Rightarrow> (int \<times> int) list" where
  "hatchArea chosen = map (\<lambda>(dx, dy). (fst chosen + dx, snd chosen + dy)) (square [-1, 0, 1])"

text \<open>The part of \<open>maybeSpawnHatcheryNear\<close> after a candidate has been chosen.\<close>

definition placeHatchery :: "int \<times> int \<Rightarrow> world \<Rightarrow> world" where
  "placeHatchery chosen w =
     (let w2 = w\<lparr>buildings := buildings w @
                  [\<lparr>bldX = fst chosen, bldY = snd chosen, bldType = hatchery, pulse = 0\<rparr>]\<rparr>;
          w3 = fold hatchCell (hatchArea chosen) w2
      in w3\<lparr>mineralsGathered := mineralsGathered w3 - HATCHERY_MINERAL_COST,
             vespeneGathered := vespeneGathered w3 - HATCHERY_VESPENE_COST\<rparr>)"

definition maybeSpawnHatcheryNear :: "rand \<Rightarrow> int \<Rightarrow> int \<Rightarrow> world \<Rightarrow> world" where
  "maybeSpawnHatcheryNear R tileX tileY w =
     (if mineralsGathered w < HATCHERY_MINERAL_COST \<or> vespeneGathered w < HATCHERY_VESPENE_COST
      then w
      else let r1 = Rep_draw (R (drawn w)); w1 = w\<lparr>drawn := drawn w + 1\<rparr> in
        if r1 > HATCHERY_SPAWN_CHANCE then w1
        else let cs = candidates w1 tileX tileY in
          if length cs = 0 then w1
          else let r2 = Rep_draw (R (drawn w1));
                   chosen = cs ! nat \<lfloor>r2 * real (length cs)\<rfloor>
               in placeHatchery chosen (w1\<lparr>drawn := drawn w1 + 1\<rparr>))"

section \<open>Resource discovery: checkResource\<close>

datatype resource_kind = mineral | gas

record discovery =
  resType :: resource_kind
  boost :: real

text \<open>
  The position in the list of the first deposit that is not depleted and whose centre is
  at squared distance below \<open>rsq\<close> from \<open>(x, y)\<close>: the deposit at which the \<open>for\<close> loop
  returns.
\<close>

fun firstInRange :: "int \<Rightarrow> int \<Rightarrow> int \<Rightarrow> deposit list \<Rightarrow> nat option" where
  "firstInRange rsq x y [] = None"
| "firstInRange rsq x y (d # ds) =
     (if \<not> depleted d \<and> (x - depX d) * (x - depX d) + (y - depY d) * (y - depY d) < rsq
      then Some 0
      else map_option Suc (firstInRange rsq x y ds))"

text \<open>What \<open>checkResource\<close> does at the mineral, or the vespene deposit, it has found.\<close>

definition claimMineral :: "rand \<Rightarrow> nat \<Rightarrow> world \<Rightarrow> world" where
  "claimMineral R k w =
     (let m = minerals w ! k;
          w1 = w\<lparr>minerals := (minerals w)[k := m\<lparr>depleted := True\<rparr>],
                 resourceBoost := min 3.0 (resourceBoost w + 0.5),
                 mineralsGathered := mineralsGathered w + 1,
                 buildings := buildings w @
                   [\<lparr>bldX = depX m, bldY = depY m, bldType = mineralpatch, pulse = 0\<rparr>]\<rparr>
      in maybeSpawnHatcheryNear R (depX m) (depY m) w1)"

definition claimVespene :: "rand \<Rightarrow> nat \<Rightarrow> world \<Rightarrow> world" where
  "claimVespene R k w =
     (let v = vespene w ! k;
          w1 = w\<lparr>vespene := (vespene w)[k := v\<lparr>depleted := True\<rparr>],
                 resourceBoost := min 3.0 (resourceBoost w + 1.0),
                 vespeneGathered := vespeneGathered w + 1,
                 buildings := buildings w @
                   [\<lparr>bldX = depX v, bldY = depY v, bldType = extractor, pulse = 0\<rparr>]\<rparr>
      in maybeSpawnHatcheryNear R (depX v) (depY v) w1)"

definition checkResource :: "rand \<Rightarrow> int \<Rightarrow> int \<Rightarrow> int \<Rightarrow> world \<Rightarrow> world \<times> discovery option" where
  "checkResource R idx x y w =
     (case firstInRange 25 x y (minerals w) of
        Some k \<Rightarrow> (claimMineral R k w, Some \<lparr>resType = mineral, boost = 2.0\<rparr>)
      | None \<Rightarrow>
          (case firstInRange 36 x y (vespene w) of
             Some k \<Rightarrow> (claimVespene R k w, Some \<lparr>resType = gas, boost = 3.0\<rparr>)
           | None \<Rightarrow> (w, None)))"

section \<open>One simulation step: spreadCreep\<close>

text \<open>The local variables of \<open>spreadCreep\<close>, next to the world they work on.\<close>

record scan =
  sw :: world
  newEdges :: "int list"
  toRemove :: "int list"
  hasEmptyNeighbor :: bool

definition neighbors :: "(int \<times> int) list" where
  "neighbors = [(-1, -1), (0, -1), (1, -1), (-1, 0), (1, 0), (-1, 1), (0, 1), (1, 1)]"

definition typeModAt :: "world \<Rightarrow> int \<Rightarrow> real" where
  "typeModAt w nidx =
     (case rd (terrainType w) nidx of
        Some t \<Rightarrow> (case rd terrainSpreadMods (int t) of Some m \<Rightarrow> m | None \<Rightarrow> 0)
      | None \<Rightarrow> 0)"

definition dirModOf :: "corner \<Rightarrow> int \<Rightarrow> int \<Rightarrow> real" where
  "dirModOf c dx dy =
     (let awayX = (dx = dirX c); awayY = (dy = dirY c) in
      if awayX \<and> awayY then 4 else if awayX \<or> awayY then 2.5 else 1)"

definition resModOf :: "discovery option \<Rightarrow> real" where
  "resModOf res = (case res of Some d \<Rightarrow> boost d | None \<Rightarrow> 1)"

definition noiseModAt :: "world \<Rightarrow> int \<Rightarrow> real" where
  "noiseModAt w nidx =
     (case rd (noiseTexture1 w) nidx of Some v \<Rightarrow> (if v > 0.75 then 1.5 else 1) | None \<Rightarrow> 1)"

text \<open>
  \<open>spreadChance\<close>; \<open>None\<close> stands for \<open>NaN\<close>, the value of the product when the height
  read is \<open>undefined\<close> (every comparison with it is false).
\<close>

definition spreadChance ::
  "real \<Rightarrow> world \<Rightarrow> world \<Rightarrow> int \<Rightarrow> int \<Rightarrow> int \<Rightarrow> discovery option \<Rightarrow> real option" where
  "spreadChance currentBoost w w1 nidx dx dy res =
     (let typeMod = typeModAt w nidx in
      case rd (terrainHeight w) nidx of
        None \<Rightarrow> None
      | Some height \<Rightarrow>
          (let heightMod = 1 - height * 0.5;
               dirMod = dirModOf (startCorner w) dx dy;
               resMod = resModOf res;
               noiseMod = noiseModAt w1 nidx
           in Some (0.002 * currentBoost * heightMod * typeMod * dirMod * resMod * noiseMod)))"

text \<open>
  The body of the loop over the eight neighbours of the cell at \<open>(x, y)\<close>. The world
  \<open>w\<close> is the one before the resource check, \<open>w1\<close> the one after it.
\<close>

definition visitNeighbor :: "rand \<Rightarrow> real \<Rightarrow> int \<Rightarrow> int \<Rightarrow> int \<times> int \<Rightarrow> scan \<Rightarrow> scan" where
  "visitNeighbor R currentBoost x y d s =
     (let w = sw s; dx = fst d; dy = snd d; nx = x + dx; ny = y + dy in
      if \<not> inGrid w nx ny then s
      else let nidx = ny * cols w + nx in
        if rd (creepGrid w) nidx \<noteq> Some 0 then s
        else let cr = checkResource R nidx nx ny w;
                 w1 = fst cr; res = snd cr;
                 chance = spreadChance currentBoost w w1 nidx dx dy res;
                 r = Rep_draw (R (drawn w1));
                 w2 = w1\<lparr>drawn := drawn w1 + 1\<rparr>
             in if (case chance of Some c \<Rightarrow> r < c | None \<Rightarrow> False) then
                  s\<lparr>sw := w2\<lparr>creepGrid := wr (creepGrid w2) nidx 1,
                              creepAge := wr (creepAge w2) nidx 1,
                              creepCount := creepCount w2 + 1\<rparr>,
                    newEdges := setAdd (newEdges s) nidx,
                    hasEmptyNeighbor := True\<rparr>
                else s\<lparr>sw := w2, hasEmptyNeighbor := True\<rparr>)"

text \<open>
  The body of the loop over the active edges. With \<open>cols = 0\<close> the coordinates
  \<open>idx % cols\<close> and \<open>Math.floor(idx / cols)\<close> are \<open>NaN\<close> or infinite: a neighbour is
  then either rejected by the bounds test or has the index \<open>NaN\<close>, at which
  \<open>creepGrid\<close> reads \<open>undefined\<close>, so no neighbour has any effect.
\<close>

definition scanNeighbors :: "rand \<Rightarrow> real \<Rightarrow> int \<Rightarrow> scan \<Rightarrow> scan" where
  "scanNeighbors R currentBoost idx s =
     (let c = cols (sw s);
          s0 = s\<lparr>hasEmptyNeighbor := False\<rparr>
      in if c = 0 then s0
         else fold (visitNeighbor R currentBoost (jsRem idx c) (idx div c)) neighbors s0)"

text \<open>\<open>creepAge[idx] = Math.min(100, creepAge[idx] + 0.2)\<close>\<close>

definition ageCell :: "int \<Rightarrow> world \<Rightarrow> world" where
  "ageCell idx w =
     (case rd (creepAge w) idx of
        Some a \<Rightarrow> w\<lparr>creepAge := wr (creepAge w) idx (min 100 (a + 0.2))\<rparr>
      | None \<Rightarrow> w)"

definition visitCell :: "rand \<Rightarrow> real \<Rightarrow> int \<Rightarrow> scan \<Rightarrow> scan" where
  "visitCell R currentBoost idx s =
     (let s1 = scanNeighbors R currentBoost idx s;
          s2 = s1\<lparr>sw := ageCell idx (sw s1)\<rparr>
      in if \<not> hasEmptyNeighbor s2 then s2\<lparr>toRemove := toRemove s2 @ [idx]\<rparr> else s2)"

section \<open>World generation: initGrid\<close>

text \<open>
  \<open>initGrid\<close> reads the window size from the globals \<open>width\<close> and \<open>height\<close>; they are
  its arguments here. The noise textures that only the renderer reads
  (\<open>noiseTexture2\<close>, \<open>noiseTexture3\<close>, \<open>veinTexture\<close>, \<open>biomeNoise\<close>) and the ripples
  are left out of the world.
\<close>

definition cellSize :: int where
  "cellSize = 8"

definition seededRandom :: "real \<Rightarrow> real" where
  "seededRandom seed = (let x = sin seed * 43758.5453 in x - real_of_int \<lfloor>x\<rfloor>)"

definition generateNoiseTexture :: "real \<Rightarrow> real \<Rightarrow> int \<Rightarrow> int \<Rightarrow> real list" where
  "generateNoiseTexture scale seed c r =
     map (\<lambda>i. let x = int i mod c; y = int i div c in
            seededRandom (real_of_int x * scale * 12.9898 + real_of_int y * scale * 78.233 + seed))
       [0..<nat (c * r)]"

text \<open>The cells in the order of the loops \<open>for y ... for x ...\<close>.\<close>

definition gridCells :: "int \<Rightarrow> int \<Rightarrow> (int \<times> int) list" where
  "gridCells c r = concat (map (\<lambda>y. map (\<lambda>x. (x, y)) [0..c - 1]) [0..r - 1])"

definition baseHeight :: "int \<Rightarrow> int \<Rightarrow> real list" where
  "baseHeight c r =
     (let heightNoise1 = generateNoiseTexture 0.0035 300 c r;
          heightNoise2 = generateNoiseTexture 0.008 400 c r;
          heightNoise3 = generateNoiseTexture 0.018 500 c r
      in map (\<lambda>i. heightNoise1 ! i * 0.7 + heightNoise2 ! i * 0.2 + heightNoise3 ! i * 0.1)
           [0..<nat (c * r)])"

text \<open>The in-bounds cells of the 3x3 block around \<open>(x, y)\<close>, \<open>oy\<close> in the outer loop.\<close>

definition block3 :: "int \<Rightarrow> int \<Rightarrow> int \<Rightarrow> int \<Rightarrow> (int \<times> int) list" where
  "block3 c r x y =
     filter (\<lambda>(nx, ny). \<not> (ny < 0 \<or> ny \<ge> r) \<and> \<not> (nx < 0 \<or> nx \<ge> c))
       (map (\<lambda>(ox, oy). (x + ox, y + oy)) (square [-1, 0, 1]))"

definition smoothCell :: "int \<Rightarrow> int \<Rightarrow> real list \<Rightarrow> int \<times> int \<Rightarrow> real list \<Rightarrow> real list" where
  "smoothCell c r h p smoothed =
     (let x = fst p; y = snd p;
          vs = map (\<lambda>(nx, ny). h ! nat (ny * c + nx)) (block3 c r x y)
      in wr smoothed (y * c + x) (sum_list vs / real (length vs)))"

definition smoothHeight :: "int \<Rightarrow> int \<Rightarrow> real list \<Rightarrow> real list" where
  "smoothHeight c r h = fold (smoothCell c r h) (gridCells c r) (replicate (nat (c * r)) 0)"

text \<open>
  The rejection sampling of a water body's centre: \<open>n\<close> is the number of attempts
  left, \<open>pos\<close> the number of random draws made so far. \<open>terrainHeight[...] <= 0.45\<close>
  is false when the read is \<open>undefined\<close>.
\<close>

fun sampleCenter :: "rand \<Rightarrow> int \<Rightarrow> int \<Rightarrow> real list \<Rightarrow> nat \<Rightarrow> nat \<Rightarrow> (int \<times> int) option \<times> nat" where
  "sampleCenter R c r h 0 pos = (None, pos)"
| "sampleCenter R c r h (Suc n) pos =
     (let cx = \<lfloor>Rep_draw (R pos) * real_of_int c\<rfloor>;
          cy = \<lfloor>Rep_draw (R (pos + 1)) * real_of_int r\<rfloor>
      in if (case rd h (cy * c + cx) of Some v \<Rightarrow> v \<le> 0.45 | None \<Rightarrow> False)
         then (Some (cx, cy), pos + 2)
         else sampleCenter R c r h n (pos + 2))"

definition floodCell ::
  "int \<Rightarrow> int \<Rightarrow> real list \<Rightarrow> real \<Rightarrow> int \<Rightarrow> int \<Rightarrow> int \<times> int \<Rightarrow> nat list \<Rightarrow> nat list" where
  "floodCell c r h radius cx cy d waterMask =
     (let dx = fst d; dy = snd d; nx = cx + dx; ny = cy + dy in
      if nx < 0 \<or> nx \<ge> c \<or> ny < 0 \<or> ny \<ge> r then waterMask
      else let dist = sqrt (real_of_int (dx * dx + dy * dy)) in
        if dist > radius then waterMask
        else let boundaryNoise = (seededRandom (real_of_int (nx + ny) * 0.1) - 0.5) * 2;
                 effectiveDist = dist + boundaryNoise * 2
             in if effectiveDist < radius \<and>
                   (case rd h (ny * c + nx) of Some v \<Rightarrow> v < 0.50 | None \<Rightarrow> False)
                then wr waterMask (ny * c + nx) 1
                else waterMask)"

text \<open>One water body: the mask and the number of draws made.\<close>

definition waterBody :: "rand \<Rightarrow> int \<Rightarrow> int \<Rightarrow> real list \<Rightarrow> nat list \<times> nat \<Rightarrow> nat list \<times> nat" where
  "waterBody R c r h mp =
     (let waterMask = fst mp; pos = snd mp; sc = sampleCenter R c r h 100 pos in
      case fst sc of
        None \<Rightarrow> (waterMask, snd sc)
      | Some (cx, cy) \<Rightarrow>
          (let radius = 8 + Rep_draw (R (snd sc)) * 15;
               k = \<lceil>radius\<rceil>
           in (fold (floodCell c r h radius cx cy) (square [- k..k]) waterMask, snd sc + 1)))"

definition waterBodies :: "rand \<Rightarrow> int \<Rightarrow> int \<Rightarrow> real list \<Rightarrow> nat \<Rightarrow> nat list \<times> nat" where
  "waterBodies R c r h pos =
     (let numBodies = nat \<lfloor>Rep_draw (R pos) * 6\<rfloor>
      in (waterBody R c r h ^^ numBodies) (replicate (nat (c * r)) 0, pos + 1))"

definition expandNeighbor :: "int \<Rightarrow> real list \<Rightarrow> int \<times> int \<Rightarrow> nat list \<Rightarrow> nat list" where
  "expandNeighbor c h p expandedWater =
     (let nidx = snd p * c + fst p in
      if (case rd h nidx of Some v \<Rightarrow> v < 0.48 | None \<Rightarrow> False)
      then wr expandedWater nidx 1 else expandedWater)"

definition expandCell ::
  "int \<Rightarrow> int \<Rightarrow> real list \<Rightarrow> nat list \<Rightarrow> int \<times> int \<Rightarrow> nat list \<Rightarrow> nat list" where
  "expandCell c r h waterMask p expandedWater =
     (let x = fst p; y = snd p; idx = y * c + x in
      if (case rd waterMask idx of Some v \<Rightarrow> v \<noteq> 0 | None \<Rightarrow> False) then
        fold (expandNeighbor c h) (block3 c r x y) (wr expandedWater idx 1)
      else expandedWater)"

definition expandWater :: "int \<Rightarrow> int \<Rightarrow> real list \<Rightarrow> nat list \<Rightarrow> nat list" where
  "expandWater c r h waterMask =
     fold (expandCell c r h waterMask) (gridCells c r) (replicate (nat (c * r)) 0)"

subsection \<open>Terrain types and cliff edges\<close>

text \<open>The body of the loop that assigns the terrain types.\<close>

definition assignType :: "real list \<Rightarrow> nat list \<Rightarrow> nat \<Rightarrow> nat list \<Rightarrow> nat list" where
  "assignType h expandedWater i tt =
     (let hv = h ! i in
      if expandedWater ! i \<noteq> 0 then tt[i := 4]
      else if hv < 0.32 then tt[i := 0]
      else if hv < 0.6 then tt[i := 1]
      else tt[i := 2])"

definition assignTypes :: "int \<Rightarrow> int \<Rightarrow> real list \<Rightarrow> nat list \<Rightarrow> nat list" where
  "assignTypes c r h expandedWater =
     fold (assignType h expandedWater) [0..<nat (c * r)] (replicate (nat (c * r)) 0)"

text \<open>The body of the loop that detects the cliff edges.\<close>

definition cliffCell :: "int \<Rightarrow> int \<Rightarrow> real list \<Rightarrow> int \<times> int \<Rightarrow> nat list \<Rightarrow> nat list" where
  "cliffCell c r h p tt =
     (let x = fst p; y = snd p; idx = y * c + x in
      if tt ! nat idx = 4 then tt
      else let hv = h ! nat idx;
               m0 = 0;
               m1 = (if x > 0 then max m0 \<bar>hv - h ! nat (idx - 1)\<bar> else m0);
               m2 = (if x < c - 1 then max m1 \<bar>hv - h ! nat (idx + 1)\<bar> else m1);
               m3 = (if y > 0 then max m2 \<bar>hv - h ! nat (idx - c)\<bar> else m2);
               maxDiff = (if y < r - 1 then max m3 \<bar>hv - h ! nat (idx + c)\<bar> else m3)
           in if maxDiff > 0.08 then tt[nat idx := 3] else tt)"

definition detectCliffs :: "int \<Rightarrow> int \<Rightarrow> real list \<Rightarrow> nat list \<Rightarrow> nat list" where
  "detectCliffs c r h tt = fold (cliffCell c r h) (gridCells c r) tt"

subsection \<open>Start corner, seed and resources\<close>

definition pickCorner :: "int \<Rightarrow> int \<Rightarrow> nat \<Rightarrow> corner" where
  "pickCorner c r k =
     (if k = 0 then \<lparr>cornerX = 0, cornerY = 0, dirX = 1, dirY = 1\<rparr>
      else if k = 1 then \<lparr>cornerX = c - 1, cornerY = 0, dirX = - 1, dirY = 1\<rparr>
      else if k = 2 then \<lparr>cornerX = 0, cornerY = r - 1, dirX = 1, dirY = - 1\<rparr>
      else \<lparr>cornerX = c - 1, cornerY = r - 1, dirX = - 1, dirY = - 1\<rparr>)"

text \<open>
  The search for a starting cell that is neither water nor cliff: the first cell of the
  search rectangle, rows outermost, whose terrain type is at most 2, and the corner
  itself when there is none.
\<close>

definition findSeed :: "int \<Rightarrow> int \<Rightarrow> nat list \<Rightarrow> corner \<Rightarrow> int \<times> int" where
  "findSeed c r tt sc =
     (let margin = \<lfloor>real_of_int c * 0.1\<rfloor>;
          xs = (if dirX sc = 1 then [0..margin - 1] else [c - margin..c - 1]);
          ys = (if dirY sc = 1 then [0..margin - 1] else [r - margin..r - 1])
      in case find (\<lambda>(sx, sy). case rd tt (sy * c + sx) of Some t \<Rightarrow> t \<le> 2 | None \<Rightarrow> False)
                (concat (map (\<lambda>sy. map (\<lambda>sx. (sx, sy)) xs) ys)) of
           Some p \<Rightarrow> p
         | None \<Rightarrow> (cornerX sc, cornerY sc))"

text \<open>
  The \<open>do ... while\<close> loop that looks for a free cell for a deposit. It returns the
  last cell drawn, the number of attempts and the number of draws made.
\<close>

function sampleSpot ::
  "rand \<Rightarrow> int \<Rightarrow> int \<Rightarrow> nat list \<Rightarrow> nat list \<Rightarrow> nat \<Rightarrow> nat \<Rightarrow> (int \<times> int) \<times> nat \<times> nat" where
  "sampleSpot R c r tt cg attempts pos =
     (let cx = \<lfloor>Rep_draw (R pos) * real_of_int c\<rfloor>;
          cy = \<lfloor>Rep_draw (R (pos + 1)) * real_of_int r\<rfloor>;
          attempts' = attempts + 1
      in if ((case rd tt (cy * c + cx) of Some t \<Rightarrow> t > 2 | None \<Rightarrow> False) \<or>
             (case rd cg (cy * c + cx) of Some v \<Rightarrow> v \<noteq> 0 | None \<Rightarrow> False)) \<and> attempts' < 100
         then sampleSpot R c r tt cg attempts' (pos + 2)
         else ((cx, cy), attempts', pos + 2))"
  by pat_completeness auto
termination
  by (relation "measure (\<lambda>(R, c, r, tt, cg, attempts, pos). 100 - attempts)") auto

declare sampleSpot.simps [simp del]

text \<open>One iteration of a deposit loop; the radius is drawn from \<open>[lo, lo + len)\<close>.\<close>

definition spawnDeposit ::
  "rand \<Rightarrow> int \<Rightarrow> int \<Rightarrow> nat list \<Rightarrow> nat list \<Rightarrow> real \<Rightarrow> real \<Rightarrow> deposit list \<times> nat \<Rightarrow> deposit list \<times> nat" where
  "spawnDeposit R c r tt cg lo len dp =
     (let ds = fst dp; pos = snd dp;
          sp = sampleSpot R c r tt cg 0 pos;
          cx = fst (fst sp); cy = snd (fst sp); attempts = fst (snd sp); pos1 = snd (snd sp)
      in if attempts < 100
         then (ds @ [\<lparr>depX = cx, depY = cy, depRadius = lo + Rep_draw (R pos1) * len,
                       depleted = False\<rparr>], pos1 + 1)
         else (ds, pos1))"

text \<open>
  The terrain part of \<open>initGrid\<close>: the smoothed height map, the terrain types and the
  number of random draws made for the water bodies.
\<close>

definition makeTerrain :: "rand \<Rightarrow> int \<Rightarrow> int \<Rightarrow> real list \<times> nat list \<times> nat" where
  "makeTerrain R c r =
     (let h = smoothHeight c r (baseHeight c r);
          wb = waterBodies R c r h 0;
          expandedWater = expandWater c r h (fst wb);
          tt = detectCliffs c r h (assignTypes c r h expandedWater)
      in (h, tt, snd wb))"

text \<open>The two deposit loops of \<open>initGrid\<close>: minerals, vespene and the draws made.\<close>

definition spawnResources ::
  "rand \<Rightarrow> int \<Rightarrow> int \<Rightarrow> nat list \<Rightarrow> nat list \<Rightarrow> nat \<Rightarrow> deposit list \<times> deposit list \<times> nat" where
  "spawnResources R c r tt cg pos =
     (let numMinerals = max 15 (nat \<lfloor>real_of_int (c * r) * 0.0006\<rfloor>);
          numVespene = max 8 (nat \<lfloor>real_of_int (c * r) * 0.0003\<rfloor>);
          ms = (spawnDeposit R c r tt cg 2 3 ^^ numMinerals) ([], pos);
          vs = (spawnDeposit R c r tt cg 3 2 ^^ numVespene) ([], snd ms)
      in (fst ms, fst vs, snd vs))"

definition initGrid :: "rand \<Rightarrow> nat \<Rightarrow> nat \<Rightarrow> world" where
  "initGrid R width height =
     (let c = \<lceil>real width / real_of_int cellSize\<rceil>;
          r = \<lceil>real height / real_of_int cellSize\<rceil>;
          size = c * r;
          t = makeTerrain R c r;
          h = fst t; tt = fst (snd t); pos1 = snd (snd t);
          sc = pickCorner c r (nat \<lfloor>Rep_draw (R pos1) * 4\<rfloor>);
          seed = findSeed c r tt sc;
          seedIdx = snd seed * c + fst seed;
          cg = wr (replicate (nat size) 0) seedIdx 1;
          res = spawnResources R c r tt cg (pos1 + 1)
      in \<lparr>cols = c, rows = r,
          creepGrid = cg,
          creepAge = wr (replicate (nat size) 0) seedIdx 50,
          terrainHeight = h,
          terrainType = tt,
          noiseTexture1 = generateNoiseTexture 0.3 0 c r,
          minerals = fst res,
          vespene = fst (snd res),
          buildings = [\<lparr>bldX = fst seed, bldY = snd seed, bldType = hatchery, pulse = 0\<rparr>],
          startCorner = sc,
          totalVisibleCells = size,
          isSaturated = False,
          creepCount = 1,
          resourceBoost = 1.0,
          mineralsGathered = 0,
          vespeneGathered = 0,
          activeEdges = [seedIdx],
          drawn = snd (snd res)\<rparr>)"

text \<open>The seed cell that \<open>initGrid\<close> chooses, and its index.\<close>

definition seedOf :: "rand \<Rightarrow> int \<Rightarrow> int \<Rightarrow> int \<times> int" where
  "seedOf R c r =
     (let t = makeTerrain R c r
      in findSeed c r (fst (snd t)) (pickCorner c r (nat \<lfloor>Rep_draw (R (snd (snd t))) * 4\<rfloor>)))"

definition gridCols :: "nat \<Rightarrow> int" where
  "gridCols width = \<lceil>real width / real_of_int cellSize\<rceil>"

lemma initGrid_fields:
  "cols (initGrid R width height) = gridCols width"
  "rows (initGrid R width height) = gridCols height"
  "totalVisibleCells (initGrid R width height) = gridCols width * gridCols height"
  "creepCount (initGrid R width height) = 1"
  "isSaturated (initGrid R width height) = False"
  "resourceBoost (initGrid R width height) = 1"
  "mineralsGathered (initGrid R width height) = 0"
  "vespeneGathered (initGrid R width height) = 0"
  "creepGrid (initGrid R width height) =
     wr (replicate (nat (gridCols width * gridCols height)) 0)
       (snd (seedOf R (gridCols width) (gridCols height)) * gridCols width +
        fst (seedOf R (gridCols width) (gridCols height))) 1"
  "creepAge (initGrid R width height) =
     wr (replicate (nat (gridCols width * gridCols height)) 0)
       (snd (seedOf R (gridCols width) (gridCols height)) * gridCols width +
        fst (seedOf R (gridCols width) (gridCols height))) 50"
  "activeEdges (initGrid R width height) =
     [snd (seedOf R (gridCols width) (gridCols height)) * gridCols width +
      fst (seedOf R (gridCols width) (gridCols height))]"
  "terrainType (initGrid R width height) =
     fst (snd (makeTerrain R (gridCols width) (gridCols height)))"
  "terrainHeight (initGrid R width height) = fst (makeTerrain R (gridCols width) (gridCols height))"
  by (simp_all add: initGrid_def Let_def seedOf_def gridCols_def)

lemma gridCols_nonneg: "0 \<le> gridCols n"
  by (simp add: gridCols_def cellSize_def)

subsection \<open>Termination of the scan over the active edges\<close>

text \<open>
  The loop over \<open>activeEdges\<close> also reaches the members that
  \<open>maybeSpawnHatcheryNear\<close> adds while the loop runs. It ends because a hatchery is
  placed only when a deposit has just been depleted, and then adds at most nine members.
\<close>

definition undepleted :: "deposit list \<Rightarrow> nat" where
  "undepleted ds = length (filter (\<lambda>d. \<not> depleted d) ds)"

definition potential :: "world \<Rightarrow> nat" where
  "potential w = 9 * (undepleted (minerals w) + undepleted (vespene w)) + length (activeEdges w)"

lemma firstInRange_Some:
  "firstInRange rsq x y ds = Some k \<Longrightarrow>
     k < length ds \<and> \<not> depleted (ds ! k) \<and>
     (x - depX (ds ! k)) * (x - depX (ds ! k)) + (y - depY (ds ! k)) * (y - depY (ds ! k)) < rsq \<and>
     (\<forall>j<k. depleted (ds ! j) \<or>
        \<not> (x - depX (ds ! j)) * (x - depX (ds ! j)) + (y - depY (ds ! j)) * (y - depY (ds ! j)) < rsq)"
proof (induction ds arbitrary: k)
  case Nil
  then show ?case by simp
next
  case (Cons d ds)
  show ?case
  proof (cases "\<not> depleted d \<and> (x - depX d) * (x - depX d) + (y - depY d) * (y - depY d) < rsq")
    case True
    with Cons.prems have "k = 0" by simp
    with True show ?thesis by simp
  next
    case False
    with Cons.prems obtain k' where k': "firstInRange rsq x y ds = Some k'" "k = Suc k'"
      by auto
    from Cons.IH [OF k'(1)] False k'(2) show ?thesis
      by (auto simp: less_Suc_eq_0_disj)
  qed
qed

lemma firstInRange_None:
  "firstInRange rsq x y ds = None \<Longrightarrow>
     \<forall>d \<in> set ds. depleted d \<or>
        \<not> (x - depX d) * (x - depX d) + (y - depY d) * (y - depY d) < rsq"
  by (induction ds) (auto split: if_splits)

lemma undepleted_deplete:
  "k < length ds \<Longrightarrow> \<not> depleted (ds ! k) \<Longrightarrow>
     Suc (undepleted (ds[k := (ds ! k)\<lparr>depleted := True\<rparr>])) = undepleted ds"
proof (induction ds arbitrary: k)
  case Nil
  then show ?case by simp
next
  case (Cons d ds)
  then show ?case
    by (cases k) (auto simp: undepleted_def)
qed

lemma setAdd_length: "length (setAdd s i) \<le> Suc (length s)"
  by (simp add: setAdd_def)

lemma length_square [simp]: "length (square ds) = length ds * length ds"
  by (simp add: square_def length_concat comp_def sum_list_triv)

lemma length_hatchArea [simp]: "length (hatchArea c) = 9"
  by (simp add: hatchArea_def)

lemma hatchCell_deposits [simp]:
  "minerals (hatchCell p w) = minerals w" "vespene (hatchCell p w) = vespene w"
  by (simp_all add: hatchCell_def Let_def)

lemma hatchCell_potential: "potential (hatchCell p w) \<le> Suc (potential w)"
  using setAdd_length [of "activeEdges w"] by (simp add: potential_def hatchCell_def Let_def)

lemma fold_hatchCell_potential: "potential (fold hatchCell ps w) \<le> length ps + potential w"
proof (induction ps arbitrary: w)
  case Nil
  then show ?case by simp
next
  case (Cons p ps)
  from Cons.IH [of "hatchCell p w"] hatchCell_potential [of p w]
  show ?case by simp
qed

lemma placeHatchery_potential: "potential (placeHatchery c w) \<le> 9 + potential w"
proof -
  have "potential (placeHatchery c w) =
          potential (fold hatchCell (hatchArea c) (w\<lparr>buildings := buildings w @
             [\<lparr>bldX = fst c, bldY = snd c, bldType = hatchery, pulse = 0\<rparr>]\<rparr>))"
    by (simp add: placeHatchery_def Let_def potential_def)
  also have "\<dots> \<le> 9 + potential (w\<lparr>buildings := buildings w @
             [\<lparr>bldX = fst c, bldY = snd c, bldType = hatchery, pulse = 0\<rparr>]\<rparr>)"
    using fold_hatchCell_potential [of "hatchArea c"] by simp
  also have "\<dots> = 9 + potential w"
    by (simp add: potential_def)
  finally show ?thesis .
qed

lemma maybeSpawn_potential: "potential (maybeSpawnHatcheryNear R tx ty w) \<le> 9 + potential w"
proof -
  have "potential (v\<lparr>drawn := n\<rparr>) = potential v" for v n
    by (simp add: potential_def)
  then show ?thesis
    using placeHatchery_potential [of _ "w\<lparr>drawn := Suc (Suc (drawn w))\<rparr>"]
    by (simp add: maybeSpawnHatcheryNear_def Let_def)
qed

lemma claimMineral_potential:
  assumes "k < length (minerals w)" and "\<not> depleted (minerals w ! k)"
  shows "potential (claimMineral R k w) \<le> potential w"
proof -
  let ?w1 = "w\<lparr>minerals := (minerals w)[k := (minerals w ! k)\<lparr>depleted := True\<rparr>],
                resourceBoost := min 3.0 (resourceBoost w + 0.5),
                mineralsGathered := mineralsGathered w + 1,
                buildings := buildings w @
                  [\<lparr>bldX = depX (minerals w ! k), bldY = depY (minerals w ! k),
                    bldType = mineralpatch, pulse = 0\<rparr>]\<rparr>"
  have "9 + potential ?w1 = potential w"
    using undepleted_deplete [OF assms] by (simp add: potential_def)
  with maybeSpawn_potential [of R "depX (minerals w ! k)" "depY (minerals w ! k)" ?w1]
  show ?thesis by (simp add: claimMineral_def Let_def)
qed

lemma claimVespene_potential:
  assumes "k < length (vespene w)" and "\<not> depleted (vespene w ! k)"
  shows "potential (claimVespene R k w) \<le> potential w"
proof -
  let ?w1 = "w\<lparr>vespene := (vespene w)[k := (vespene w ! k)\<lparr>depleted := True\<rparr>],
                resourceBoost := min 3.0 (resourceBoost w + 1.0),
                vespeneGathered := vespeneGathered w + 1,
                buildings := buildings w @
                  [\<lparr>bldX = depX (vespene w ! k), bldY = depY (vespene w ! k),
                    bldType = extractor, pulse = 0\<rparr>]\<rparr>"
  have "9 + potential ?w1 = potential w"
    using undepleted_deplete [OF assms] by (simp add: potential_def)
  with maybeSpawn_potential [of R "depX (vespene w ! k)" "depY (vespene w ! k)" ?w1]
  show ?thesis by (simp add: claimVespene_def Let_def)
qed

lemma checkResource_potential: "potential (fst (checkResource R idx x y w)) \<le> potential w"
  using claimMineral_potential [of _ w R] claimVespene_potential [of _ w R]
  by (auto simp: checkResource_def split: option.splits dest: firstInRange_Some)

lemma visitNeighbor_potential: "potential (sw (visitNeighbor R cb x y d s)) \<le> potential (sw s)"
proof -
  have "potential (v\<lparr>drawn := n\<rparr>) = potential v" for v n
    by (simp add: potential_def)
  moreover have "potential (v\<lparr>creepGrid := g, creepAge := a, creepCount := c\<rparr>) = potential v"
    for v g a c
    by (simp add: potential_def)
  ultimately show ?thesis
    using checkResource_potential [of R "(y + snd d) * cols (sw s) + (x + fst d)" "x + fst d"
        "y + snd d" "sw s"]
    by (simp add: visitNeighbor_def Let_def)
qed

lemma fold_visitNeighbor_potential:
  "potential (sw (fold (visitNeighbor R cb x y) ds s)) \<le> potential (sw s)"
proof (induction ds arbitrary: s)
  case Nil
  then show ?case by simp
next
  case (Cons d ds)
  from Cons.IH [of "visitNeighbor R cb x y d s"] visitNeighbor_potential [of R cb x y d s]
  show ?case by simp
qed

lemma visitCell_sw: "sw (visitCell R cb idx s) = ageCell idx (sw (scanNeighbors R cb idx s))"
  by (simp add: visitCell_def Let_def)

lemma visitCell_potential: "potential (sw (visitCell R cb idx s)) \<le> potential (sw s)"
proof -
  have "potential (ageCell idx v) = potential v" for v
    by (simp add: potential_def ageCell_def split: option.split)
  moreover have "potential (sw (scanNeighbors R cb idx s)) \<le> potential (sw s)"
    using fold_visitNeighbor_potential [of R cb "jsRem idx (cols (sw s))" "idx div cols (sw s)"
        neighbors "s\<lparr>hasEmptyNeighbor := False\<rparr>"]
    by (simp add: scanNeighbors_def Let_def)
  ultimately show ?thesis by (simp add: visitCell_sw)
qed

text \<open>
  The \<open>for ... of activeEdges\<close> loop: \<open>i\<close> is the position of the iterator in the
  set's list of members.
\<close>

function scanFrom :: "rand \<Rightarrow> real \<Rightarrow> nat \<Rightarrow> scan \<Rightarrow> scan" where
  "scanFrom R currentBoost i s =
     (if i < length (activeEdges (sw s))
      then scanFrom R currentBoost (Suc i) (visitCell R currentBoost (activeEdges (sw s) ! i) s)
      else s)"
  by pat_completeness auto
termination
proof (relation "measure (\<lambda>(R, cb, i, s). potential (sw s) - i)")
  show "wf (measure (\<lambda>(R, cb, i, s). potential (sw s) - i))"
    by simp
next
  fix R :: rand and currentBoost :: real and i :: nat and s :: scan
  assume "i < length (activeEdges (sw s))"
  then have "i < potential (sw s)"
    by (simp add: potential_def)
  with visitCell_potential [of R currentBoost "activeEdges (sw s) ! i" s]
  show "((R, currentBoost, Suc i, visitCell R currentBoost (activeEdges (sw s) ! i) s),
         (R, currentBoost, i, s)) \<in> measure (\<lambda>(R, cb, i, s). potential (sw s) - i)"
    by simp
qed

declare scanFrom.simps [simp del]

definition spreadCreep :: "rand \<Rightarrow> world \<Rightarrow> world" where
  "spreadCreep R w =
     (if isSaturated w then w
      else let s = scanFrom R (resourceBoost w) 0
                     \<lparr>sw = w, newEdges = [], toRemove = [], hasEmptyNeighbor = False\<rparr>;
               w1 = sw s;
               e1 = fold (\<lambda>idx e. setDelete e idx) (toRemove s) (activeEdges w1);
               e2 = fold (\<lambda>idx e. setAdd e idx) (newEdges s) e1;
               w2 = w1\<lparr>activeEdges := e2\<rparr>
           in if real_of_int (creepCount w2) \<ge> real_of_int (totalVisibleCells w2) * 0.98
              then w2\<lparr>isSaturated := True\<rparr>
              else w2)"

section \<open>Properties preserved by a step\<close>

text \<open>
  A property of the world is stable when each elementary update that a step makes
  preserves it; a stable property then holds after every function of the step.
\<close>

definition spawnStable :: "(world \<Rightarrow> bool) \<Rightarrow> bool" where
  "spawnStable P \<longleftrightarrow>
     (\<forall>v n. P v \<longrightarrow> P (v\<lparr>drawn := n\<rparr>)) \<and>
     (\<forall>v c. P v \<longrightarrow>
          P (v\<lparr>buildings := buildings v @
               [\<lparr>bldX = fst c, bldY = snd c, bldType = hatchery, pulse = 0\<rparr>]\<rparr>)) \<and>
     (\<forall>v p. P v \<longrightarrow> P (hatchCell p v)) \<and>
     (\<forall>v. P v \<longrightarrow> HATCHERY_MINERAL_COST \<le> mineralsGathered v \<longrightarrow>
          HATCHERY_VESPENE_COST \<le> vespeneGathered v \<longrightarrow>
          P (v\<lparr>mineralsGathered := mineralsGathered v - HATCHERY_MINERAL_COST,
               vespeneGathered := vespeneGathered v - HATCHERY_VESPENE_COST\<rparr>)) \<and>
     (\<forall>v k. P v \<longrightarrow> k < length (minerals v) \<longrightarrow> \<not> depleted (minerals v ! k) \<longrightarrow>
          P (v\<lparr>minerals := (minerals v)[k := (minerals v ! k)\<lparr>depleted := True\<rparr>],
               resourceBoost := min 3.0 (resourceBoost v + 0.5),
               mineralsGathered := mineralsGathered v + 1,
               buildings := buildings v @
                 [\<lparr>bldX = depX (minerals v ! k), bldY = depY (minerals v ! k),
                   bldType = mineralpatch, pulse = 0\<rparr>]\<rparr>)) \<and>
     (\<forall>v k. P v \<longrightarrow> k < length (vespene v) \<longrightarrow> \<not> depleted (vespene v ! k) \<longrightarrow>
          P (v\<lparr>vespene := (vespene v)[k := (vespene v ! k)\<lparr>depleted := True\<rparr>],
               resourceBoost := min 3.0 (resourceBoost v + 1.0),
               vespeneGathered := vespeneGathered v + 1,
               buildings := buildings v @
                 [\<lparr>bldX = depX (vespene v ! k), bldY = depY (vespene v ! k),
                   bldType = extractor, pulse = 0\<rparr>]\<rparr>))"

definition stable :: "(world \<Rightarrow> bool) \<Rightarrow> bool" where
  "stable P \<longleftrightarrow>
     spawnStable P \<and>
     (\<forall>v i. P v \<longrightarrow>
          P (v\<lparr>creepGrid := wr (creepGrid v) i 1, creepAge := wr (creepAge v) i 1,
               creepCount := creepCount v + 1\<rparr>)) \<and>
     (\<forall>v i a. P v \<longrightarrow> P (v\<lparr>creepAge := wr (creepAge v) i a\<rparr>)) \<and>
     (\<forall>v e. P v \<longrightarrow> P (v\<lparr>activeEdges := e\<rparr>)) \<and>
     (\<forall>v. P v \<longrightarrow> P (v\<lparr>isSaturated := True\<rparr>))"

lemma stable_spawn: "stable P \<Longrightarrow> spawnStable P"
  by (simp only: stable_def)

lemma spawn_drawn:
  assumes "spawnStable P" and "P v"
  shows "P (v\<lparr>drawn := n\<rparr>)"
proof -
  have "\<forall>v n. P v \<longrightarrow> P (v\<lparr>drawn := n\<rparr>)"
    using assms(1) unfolding spawnStable_def by (elim conjE)
  from this [rule_format, OF assms(2)] show ?thesis .
qed

lemma spawn_buildings:
  assumes "spawnStable P" and "P v"
  shows "P (v\<lparr>buildings := buildings v @
               [\<lparr>bldX = fst c, bldY = snd c, bldType = hatchery, pulse = 0\<rparr>]\<rparr>)"
proof -
  have "\<forall>v c. P v \<longrightarrow>
          P (v\<lparr>buildings := buildings v @
               [\<lparr>bldX = fst c, bldY = snd c, bldType = hatchery, pulse = 0\<rparr>]\<rparr>)"
    using assms(1) unfolding spawnStable_def by (elim conjE)
  from this [rule_format, OF assms(2)] show ?thesis .
qed

lemma spawn_hatchCell:
  assumes "spawnStable P" and "P v"
  shows "P (hatchCell p v)"
proof -
  have "\<forall>v p. P v \<longrightarrow> P (hatchCell p v)"
    using assms(1) unfolding spawnStable_def by (elim conjE)
  from this [rule_format, OF assms(2)] show ?thesis .
qed

lemma spawn_spend:
  assumes "spawnStable P" and "P v" and "HATCHERY_MINERAL_COST \<le> mineralsGathered v"
    and "HATCHERY_VESPENE_COST \<le> vespeneGathered v"
  shows "P (v\<lparr>mineralsGathered := mineralsGathered v - HATCHERY_MINERAL_COST,
          vespeneGathered := vespeneGathered v - HATCHERY_VESPENE_COST\<rparr>)"
proof -
  have "\<forall>v. P v \<longrightarrow> HATCHERY_MINERAL_COST \<le> mineralsGathered v \<longrightarrow>
          HATCHERY_VESPENE_COST \<le> vespeneGathered v \<longrightarrow>
          P (v\<lparr>mineralsGathered := mineralsGathered v - HATCHERY_MINERAL_COST,
               vespeneGathered := vespeneGathered v - HATCHERY_VESPENE_COST\<rparr>)"
    using assms(1) unfolding spawnStable_def by (elim conjE)
  from this [rule_format, OF assms(2-4)] show ?thesis .
qed

lemma spawn_mineral:
  assumes "spawnStable P" and "P v" and "k < length (minerals v)" and "\<not> depleted (minerals v ! k)"
  shows "P (v\<lparr>minerals := (minerals v)[k := (minerals v ! k)\<lparr>depleted := True\<rparr>],
          resourceBoost := min 3.0 (resourceBoost v + 0.5),
          mineralsGathered := mineralsGathered v + 1,
          buildings := buildings v @
            [\<lparr>bldX = depX (minerals v ! k), bldY = depY (minerals v ! k),
              bldType = mineralpatch, pulse = 0\<rparr>]\<rparr>)"
proof -
  have "\<forall>v k. P v \<longrightarrow> k < length (minerals v) \<longrightarrow> \<not> depleted (minerals v ! k) \<longrightarrow>
          P (v\<lparr>minerals := (minerals v)[k := (minerals v ! k)\<lparr>depleted := True\<rparr>],
               resourceBoost := min 3.0 (resourceBoost v + 0.5),
               mineralsGathered := mineralsGathered v + 1,
               buildings := buildings v @
                 [\<lparr>bldX = depX (minerals v ! k), bldY = depY (minerals v ! k),
                   bldType = mineralpatch, pulse = 0\<rparr>]\<rparr>)"
    using assms(1) unfolding spawnStable_def by (elim conjE)
  from this [rule_format, OF assms(2-4)] show ?thesis .
qed

lemma spawn_vespene:
  assumes "spawnStable P" and "P v" and "k < length (vespene v)" and "\<not> depleted (vespene v ! k)"
  shows "P (v\<lparr>vespene := (vespene v)[k := (vespene v ! k)\<lparr>depleted := True\<rparr>],
          resourceBoost := min 3.0 (resourceBoost v + 1.0),
          vespeneGathered := vespeneGathered v + 1,
          buildings := buildings v @
            [\<lparr>bldX = depX (vespene v ! k), bldY = depY (vespene v ! k),
              bldType = extractor, pulse = 0\<rparr>]\<rparr>)"
proof -
  have "\<forall>v k. P v \<longrightarrow> k < length (vespene v) \<longrightarrow> \<not> depleted (vespene v ! k) \<longrightarrow>
          P (v\<lparr>vespene := (vespene v)[k := (vespene v ! k)\<lparr>depleted := True\<rparr>],
               resourceBoost := min 3.0 (resourceBoost v + 1.0),
               vespeneGathered := vespeneGathered v + 1,
               buildings := buildings v @
                 [\<lparr>bldX = depX (vespene v ! k), bldY = depY (vespene v ! k),
                   bldType = extractor, pulse = 0\<rparr>]\<rparr>)"
    using assms(1) unfolding spawnStable_def by (elim conjE)
  from this [rule_format, OF assms(2-4)] show ?thesis .
qed

lemma stable_grow:
  assumes "stable P" and "P v"
  shows "P (v\<lparr>creepGrid := wr (creepGrid v) i 1, creepAge := wr (creepAge v) i 1,
          creepCount := creepCount v + 1\<rparr>)"
proof -
  have "\<forall>v i. P v \<longrightarrow>
          P (v\<lparr>creepGrid := wr (creepGrid v) i 1, creepAge := wr (creepAge v) i 1,
               creepCount := creepCount v + 1\<rparr>)"
    using assms(1) unfolding stable_def by (elim conjE)
  from this [rule_format, OF assms(2)] show ?thesis .
qed

lemma stable_age:
  assumes "stable P" and "P v"
  shows "P (v\<lparr>creepAge := wr (creepAge v) i a\<rparr>)"
proof -
  have "\<forall>v i a. P v \<longrightarrow> P (v\<lparr>creepAge := wr (creepAge v) i a\<rparr>)"
    using assms(1) unfolding stable_def by (elim conjE)
  from this [rule_format, OF assms(2)] show ?thesis .
qed

lemma stable_edges:
  assumes "stable P" and "P v"
  shows "P (v\<lparr>activeEdges := e\<rparr>)"
proof -
  have "\<forall>v e. P v \<longrightarrow> P (v\<lparr>activeEdges := e\<rparr>)"
    using assms(1) unfolding stable_def by (elim conjE)
  from this [rule_format, OF assms(2)] show ?thesis .
qed

lemma stable_saturated:
  assumes "stable P" and "P v"
  shows "P (v\<lparr>isSaturated := True\<rparr>)"
proof -
  have "\<forall>v. P v \<longrightarrow> P (v\<lparr>isSaturated := True\<rparr>)"
    using assms(1) unfolding stable_def by (elim conjE)
  from this [rule_format, OF assms(2)] show ?thesis .
qed

lemma fold_hatchCell_spawn: "spawnStable P \<Longrightarrow> P w \<Longrightarrow> P (fold hatchCell ps w)"
proof (induction ps arbitrary: w)
  case Nil
  then show ?case by simp
next
  case (Cons p ps)
  from Cons.prems have "P (hatchCell p w)" by (rule spawn_hatchCell)
  with Cons.prems(1) have "P (fold hatchCell ps (hatchCell p w))" by (rule Cons.IH)
  then show ?case by simp
qed

lemma hatchCell_gathered [simp]:
  "mineralsGathered (hatchCell p w) = mineralsGathered w"
  "vespeneGathered (hatchCell p w) = vespeneGathered w"
  by (simp_all add: hatchCell_def Let_def)

lemma fold_hatchCell_gathered [simp]:
  "mineralsGathered (fold hatchCell ps w) = mineralsGathered w"
  "vespeneGathered (fold hatchCell ps w) = vespeneGathered w"
  by (induction ps arbitrary: w; simp)+

lemma placeHatchery_spawn:
  assumes "spawnStable P" and "P w"
    and "HATCHERY_MINERAL_COST \<le> mineralsGathered w" and "HATCHERY_VESPENE_COST \<le> vespeneGathered w"
  shows "P (placeHatchery c w)"
proof -
  let ?w2 = "w\<lparr>buildings := buildings w @
                  [\<lparr>bldX = fst c, bldY = snd c, bldType = hatchery, pulse = 0\<rparr>]\<rparr>"
  let ?w3 = "fold hatchCell (hatchArea c) ?w2"
  from assms(1,2) have "P ?w2" by (rule spawn_buildings)
  with assms(1) have "P ?w3" by (rule fold_hatchCell_spawn)
  moreover have "HATCHERY_MINERAL_COST \<le> mineralsGathered ?w3" "HATCHERY_VESPENE_COST \<le> vespeneGathered ?w3"
    using assms(3,4) by simp_all
  ultimately have "P (?w3\<lparr>mineralsGathered := mineralsGathered ?w3 - HATCHERY_MINERAL_COST,
               vespeneGathered := vespeneGathered ?w3 - HATCHERY_VESPENE_COST\<rparr>)"
    by (rule spawn_spend [OF assms(1)])
  then show ?thesis by (simp only: placeHatchery_def Let_def)
qed

lemma maybeSpawn_cases:
  obtains (gate) "mineralsGathered w < HATCHERY_MINERAL_COST \<or> vespeneGathered w < HATCHERY_VESPENE_COST"
      and "maybeSpawnHatcheryNear R tx ty w = w"
  | (flip) "HATCHERY_MINERAL_COST \<le> mineralsGathered w" and "HATCHERY_VESPENE_COST \<le> vespeneGathered w"
      and "Rep_draw (R (drawn w)) > HATCHERY_SPAWN_CHANCE \<or> candidates (w\<lparr>drawn := drawn w + 1\<rparr>) tx ty = []"
      and "maybeSpawnHatcheryNear R tx ty w = w\<lparr>drawn := drawn w + 1\<rparr>"
  | (place) c where "HATCHERY_MINERAL_COST \<le> mineralsGathered w"
      and "HATCHERY_VESPENE_COST \<le> vespeneGathered w"
      and "\<not> Rep_draw (R (drawn w)) > HATCHERY_SPAWN_CHANCE"
      and "c \<in> set (candidates (w\<lparr>drawn := drawn w + 1\<rparr>) tx ty)"
      and "maybeSpawnHatcheryNear R tx ty w = placeHatchery c (w\<lparr>drawn := drawn w + 2\<rparr>)"
proof (cases "mineralsGathered w < HATCHERY_MINERAL_COST \<or> vespeneGathered w < HATCHERY_VESPENE_COST")
  case True
  then show ?thesis by (intro gate) (simp_all add: maybeSpawnHatcheryNear_def)
next
  case False
  note g = False
  let ?w1 = "w\<lparr>drawn := drawn w + 1\<rparr>"
  let ?cs = "candidates ?w1 tx ty"
  show ?thesis
  proof (cases "Rep_draw (R (drawn w)) > HATCHERY_SPAWN_CHANCE \<or> ?cs = []")
    case True
    with g show ?thesis by (intro flip) (auto simp: maybeSpawnHatcheryNear_def Let_def)
  next
    case False
    let ?k = "nat \<lfloor>Rep_draw (R (drawn ?w1)) * real (length ?cs)\<rfloor>"
    have r: "0 \<le> Rep_draw (R (drawn ?w1))" "Rep_draw (R (drawn ?w1)) < 1"
      using Rep_draw [of "R (drawn ?w1)"] by simp_all
    from False have len: "0 < length ?cs" by simp
    have "Rep_draw (R (drawn ?w1)) * real (length ?cs) < real (length ?cs)"
      using r len by simp
    then have "\<lfloor>Rep_draw (R (drawn ?w1)) * real (length ?cs)\<rfloor> < int (length ?cs)"
      by (simp add: floor_less_iff)
    then have "?k < length ?cs" using len by linarith
    then have "?cs ! ?k \<in> set ?cs" by simp
    moreover have "maybeSpawnHatcheryNear R tx ty w = placeHatchery (?cs ! ?k) (w\<lparr>drawn := drawn w + 2\<rparr>)"
      using g False by (simp add: maybeSpawnHatcheryNear_def Let_def)
    ultimately show ?thesis using g False by (intro place [of "?cs ! ?k"]) simp_all
  qed
qed

lemma maybeSpawn_spawn:
  assumes "spawnStable P" and "P w"
  shows "P (maybeSpawnHatcheryNear R tx ty w)"
proof (cases rule: maybeSpawn_cases [of w R tx ty])
  case gate
  with assms(2) show ?thesis by simp
next
  case flip
  from assms have "P (w\<lparr>drawn := drawn w + 1\<rparr>)" by (rule spawn_drawn)
  with flip(4) show ?thesis by simp
next
  case (place c)
  from assms have "P (w\<lparr>drawn := drawn w + 2\<rparr>)" by (rule spawn_drawn)
  with assms(1) have "P (placeHatchery c (w\<lparr>drawn := drawn w + 2\<rparr>))"
    by (rule placeHatchery_spawn) (use place in simp_all)
  with place(5) show ?thesis by simp
qed

lemma checkResource_cases:
  obtains (none) "firstInRange 25 x y (minerals w) = None" and "firstInRange 36 x y (vespene w) = None"
      and "checkResource R idx x y w = (w, None)"
  | (mineral) k where "firstInRange 25 x y (minerals w) = Some k"
      and "k < length (minerals w)" and "\<not> depleted (minerals w ! k)"
      and "checkResource R idx x y w = (claimMineral R k w, Some \<lparr>resType = mineral, boost = 2.0\<rparr>)"
  | (gas) k where "firstInRange 25 x y (minerals w) = None"
      and "firstInRange 36 x y (vespene w) = Some k"
      and "k < length (vespene w)" and "\<not> depleted (vespene w ! k)"
      and "checkResource R idx x y w = (claimVespene R k w, Some \<lparr>resType = gas, boost = 3.0\<rparr>)"
proof (cases "firstInRange 25 x y (minerals w)")
  case (Some k)
  with firstInRange_Some [OF Some] show ?thesis
    by (intro mineral [of k]) (simp_all add: checkResource_def)
next
  case None
  note m = None
  show ?thesis
  proof (cases "firstInRange 36 x y (vespene w)")
    case (Some k)
    with m firstInRange_Some [OF Some] show ?thesis
      by (intro gas [of k]) (simp_all add: checkResource_def)
  next
    case None
    with m show ?thesis by (intro none) (simp_all add: checkResource_def)
  qed
qed

lemma claimMineral_spawn:
  assumes "spawnStable P" and "P w" and "k < length (minerals w)" and "\<not> depleted (minerals w ! k)"
  shows "P (claimMineral R k w)"
proof -
  let ?w1 = "w\<lparr>minerals := (minerals w)[k := (minerals w ! k)\<lparr>depleted := True\<rparr>],
                resourceBoost := min 3.0 (resourceBoost w + 0.5),
                mineralsGathered := mineralsGathered w + 1,
                buildings := buildings w @
                  [\<lparr>bldX = depX (minerals w ! k), bldY = depY (minerals w ! k),
                    bldType = mineralpatch, pulse = 0\<rparr>]\<rparr>"
  have "P ?w1" using assms by (rule spawn_mineral)
  with assms(1) have "P (maybeSpawnHatcheryNear R (depX (minerals w ! k)) (depY (minerals w ! k)) ?w1)"
    by (rule maybeSpawn_spawn)
  then show ?thesis by (simp add: claimMineral_def Let_def)
qed

lemma claimVespene_spawn:
  assumes "spawnStable P" and "P w" and "k < length (vespene w)" and "\<not> depleted (vespene w ! k)"
  shows "P (claimVespene R k w)"
proof -
  let ?w1 = "w\<lparr>vespene := (vespene w)[k := (vespene w ! k)\<lparr>depleted := True\<rparr>],
                resourceBoost := min 3.0 (resourceBoost w + 1.0),
                vespeneGathered := vespeneGathered w + 1,
                buildings := buildings w @
                  [\<lparr>bldX = depX (vespene w ! k), bldY = depY (vespene w ! k),
                    bldType = extractor, pulse = 0\<rparr>]\<rparr>"
  have "P ?w1" using assms by (rule spawn_vespene)
  with assms(1) have "P (maybeSpawnHatcheryNear R (depX (vespene w ! k)) (depY (vespene w ! k)) ?w1)"
    by (rule maybeSpawn_spawn)
  then show ?thesis by (simp add: claimVespene_def Let_def)
qed

lemma checkResource_spawn:
  assumes "spawnStable P" and "P w"
  shows "P (fst (checkResource R idx x y w))"
proof (cases rule: checkResource_cases [of x y w R idx])
  case none
  with assms(2) show ?thesis by simp
next
  case (mineral k)
  with claimMineral_spawn [OF assms mineral(2,3), of R] show ?thesis by simp
next
  case (gas k)
  with claimVespene_spawn [OF assms gas(3,4), of R] show ?thesis by simp
qed

text \<open>The three ways in which a neighbour is passed.\<close>

definition nbIndex :: "world \<Rightarrow> int \<Rightarrow> int \<Rightarrow> int \<times> int \<Rightarrow> int" where
  "nbIndex w x y d = (y + snd d) * cols w + (x + fst d)"

definition rolled :: "rand \<Rightarrow> int \<Rightarrow> int \<Rightarrow> int \<times> int \<Rightarrow> world \<Rightarrow> world" where
  "rolled R x y d w =
     (let w1 = fst (checkResource R (nbIndex w x y d) (x + fst d) (y + snd d) w)
      in w1\<lparr>drawn := drawn w1 + 1\<rparr>)"

lemma visitNeighbor_cases:
  obtains (skip) "\<not> inGrid (sw s) (x + fst d) (y + snd d) \<or>
        rd (creepGrid (sw s)) (nbIndex (sw s) x y d) \<noteq> Some 0"
      and "visitNeighbor R cb x y d s = s"
  | (stay) "inGrid (sw s) (x + fst d) (y + snd d)"
      and "rd (creepGrid (sw s)) (nbIndex (sw s) x y d) = Some 0"
      and "visitNeighbor R cb x y d s = s\<lparr>sw := rolled R x y d (sw s), hasEmptyNeighbor := True\<rparr>"
  | (grow) "inGrid (sw s) (x + fst d) (y + snd d)"
      and "rd (creepGrid (sw s)) (nbIndex (sw s) x y d) = Some 0"
      and "visitNeighbor R cb x y d s =
             s\<lparr>sw := (rolled R x y d (sw s))
                       \<lparr>creepGrid := wr (creepGrid (rolled R x y d (sw s))) (nbIndex (sw s) x y d) 1,
                        creepAge := wr (creepAge (rolled R x y d (sw s))) (nbIndex (sw s) x y d) 1,
                        creepCount := creepCount (rolled R x y d (sw s)) + 1\<rparr>,
               newEdges := setAdd (newEdges s) (nbIndex (sw s) x y d),
               hasEmptyNeighbor := True\<rparr>"
proof -
  let ?nidx = "(y + snd d) * cols (sw s) + (x + fst d)"
  let ?cr = "checkResource R ?nidx (x + fst d) (y + snd d) (sw s)"
  let ?go = "case spreadChance cb (sw s) (fst ?cr) ?nidx (fst d) (snd d) (snd ?cr) of
               Some c \<Rightarrow> Rep_draw (R (drawn (fst ?cr))) < c | None \<Rightarrow> False"
  consider "\<not> inGrid (sw s) (x + fst d) (y + snd d) \<or> rd (creepGrid (sw s)) ?nidx \<noteq> Some 0"
    | "inGrid (sw s) (x + fst d) (y + snd d)" "rd (creepGrid (sw s)) ?nidx = Some 0" "\<not> ?go"
    | "inGrid (sw s) (x + fst d) (y + snd d)" "rd (creepGrid (sw s)) ?nidx = Some 0" "?go"
    by blast
  then show ?thesis
  proof cases
    case 1
    then show ?thesis
      by (intro skip) (auto simp: visitNeighbor_def Let_def nbIndex_def)
  next
    case 2
    then show ?thesis
      by (intro stay) (simp_all add: visitNeighbor_def Let_def nbIndex_def rolled_def)
  next
    case 3
    then show ?thesis
      by (intro grow) (simp_all add: visitNeighbor_def Let_def nbIndex_def rolled_def)
  qed
qed

lemma rolled_spawn:
  assumes "spawnStable P" and "P w"
  shows "P (rolled R x y d w)"
proof -
  let ?w1 = "fst (checkResource R (nbIndex w x y d) (x + fst d) (y + snd d) w)"
  have "P ?w1" using assms by (rule checkResource_spawn)
  with assms(1) have "P (?w1\<lparr>drawn := drawn ?w1 + 1\<rparr>)" by (rule spawn_drawn)
  then show ?thesis by (simp add: rolled_def Let_def)
qed

lemma stable_drawn: "stable P \<Longrightarrow> P v \<Longrightarrow> P (v\<lparr>drawn := n\<rparr>)"
  by (rule spawn_drawn [OF stable_spawn])

lemma maybeSpawn_stable: "stable P \<Longrightarrow> P w \<Longrightarrow> P (maybeSpawnHatcheryNear R tx ty w)"
  by (rule maybeSpawn_spawn [OF stable_spawn])

lemma checkResource_stable: "stable P \<Longrightarrow> P w \<Longrightarrow> P (fst (checkResource R idx x y w))"
  by (rule checkResource_spawn [OF stable_spawn])

lemma rolled_stable: "stable P \<Longrightarrow> P w \<Longrightarrow> P (rolled R x y d w)"
  by (rule rolled_spawn [OF stable_spawn])

lemma visitNeighbor_stable:
  assumes "stable P" and "P (sw s)"
  shows "P (sw (visitNeighbor R cb x y d s))"
proof -
  have p2: "P (rolled R x y d (sw s))" using assms by (rule rolled_stable)
  show ?thesis
  proof (cases rule: visitNeighbor_cases [of s x d y R cb])
    case skip
    with assms(2) show ?thesis by simp
  next
    case stay
    with p2 show ?thesis by simp
  next
    case grow
    from stable_grow [OF assms(1) p2] grow(3) show ?thesis by simp
  qed
qed

lemma fold_visitNeighbor_stable:
  assumes "stable P"
  shows "P (sw s) \<Longrightarrow> P (sw (fold (visitNeighbor R cb x y) ds s))"
proof (induction ds arbitrary: s)
  case Nil
  then show ?case by simp
next
  case (Cons d ds)
  from assms Cons.prems have "P (sw (visitNeighbor R cb x y d s))" by (rule visitNeighbor_stable)
  then have "P (sw (fold (visitNeighbor R cb x y) ds (visitNeighbor R cb x y d s)))" by (rule Cons.IH)
  then show ?case by simp
qed

lemma scanNeighbors_stable:
  assumes "stable P" and "P (sw s)"
  shows "P (sw (scanNeighbors R cb idx s))"
proof -
  have "P (sw (s\<lparr>hasEmptyNeighbor := False\<rparr>))" using assms(2) by simp
  then have "P (sw (fold (visitNeighbor R cb x y) ds (s\<lparr>hasEmptyNeighbor := False\<rparr>)))" for x y ds
    by (rule fold_visitNeighbor_stable [OF assms(1)])
  with assms(2) show ?thesis by (simp add: scanNeighbors_def Let_def)
qed

lemma ageCell_stable:
  assumes "stable P" and "P w"
  shows "P (ageCell idx w)"
proof (cases "rd (creepAge w) idx")
  case None
  with assms(2) show ?thesis by (simp add: ageCell_def)
next
  case (Some a)
  from assms have "P (w\<lparr>creepAge := wr (creepAge w) idx (min 100 (a + 0.2))\<rparr>)"
    by (rule stable_age)
  with Some show ?thesis by (simp add: ageCell_def)
qed

lemma visitCell_stable:
  assumes "stable P" and "P (sw s)"
  shows "P (sw (visitCell R cb idx s))"
proof -
  from assms have "P (sw (scanNeighbors R cb idx s))" by (rule scanNeighbors_stable)
  with assms(1) have "P (ageCell idx (sw (scanNeighbors R cb idx s)))" by (rule ageCell_stable)
  then show ?thesis by (simp add: visitCell_sw)
qed

lemma scanFrom_stable:
  assumes "stable P"
  shows "P (sw s) \<Longrightarrow> P (sw (scanFrom R cb i s))"
proof (induction R cb i s rule: scanFrom.induct)
  case (1 R cb i s)
  show ?case
  proof (cases "i < length (activeEdges (sw s))")
    case True
    from assms "1.prems" have "P (sw (visitCell R cb (activeEdges (sw s) ! i) s))"
      by (rule visitCell_stable)
    with True have "P (sw (scanFrom R cb (Suc i) (visitCell R cb (activeEdges (sw s) ! i) s)))"
      by (rule "1.IH")
    with True show ?thesis by (subst scanFrom.simps) simp
  next
    case False
    with "1.prems" show ?thesis by (subst scanFrom.simps) simp
  qed
qed

lemma spreadCreep_stable:
  assumes "stable P" and "P w"
  shows "P (spreadCreep R w)"
proof (cases "isSaturated w")
  case True
  with assms(2) show ?thesis by (simp add: spreadCreep_def)
next
  case False
  let ?s = "scanFrom R (resourceBoost w) 0 \<lparr>sw = w, newEdges = [], toRemove = [], hasEmptyNeighbor = False\<rparr>"
  let ?e = "fold (\<lambda>idx e. setAdd e idx) (newEdges ?s)
              (fold (\<lambda>idx e. setDelete e idx) (toRemove ?s) (activeEdges (sw ?s)))"
  have "P (sw \<lparr>sw = w, newEdges = [], toRemove = [], hasEmptyNeighbor = False\<rparr>)"
    using assms(2) by simp
  then have "P (sw ?s)" by (rule scanFrom_stable [OF assms(1)])
  with assms(1) have e: "P ((sw ?s)\<lparr>activeEdges := ?e\<rparr>)" by (rule stable_edges)
  with assms(1) have "P ((sw ?s)\<lparr>activeEdges := ?e, isSaturated := True\<rparr>)" by (rule stable_saturated)
  with e False show ?thesis by (simp add: spreadCreep_def Let_def)
qed

subsection \<open>Fields that a step leaves alone\<close>

lemma length_wr [simp]: "length (wr xs i v) = length xs"
  by (simp add: wr_def)

lemma hatchCell_frame [simp]:
  "cols (hatchCell p w) = cols w" "rows (hatchCell p w) = rows w"
  "terrainType (hatchCell p w) = terrainType w" "terrainHeight (hatchCell p w) = terrainHeight w"
  "noiseTexture1 (hatchCell p w) = noiseTexture1 w" "startCorner (hatchCell p w) = startCorner w"
  "totalVisibleCells (hatchCell p w) = totalVisibleCells w" "isSaturated (hatchCell p w) = isSaturated w"
  "resourceBoost (hatchCell p w) = resourceBoost w" "buildings (hatchCell p w) = buildings w"
  "drawn (hatchCell p w) = drawn w"
  "length (creepGrid (hatchCell p w)) = length (creepGrid w)"
  "length (creepAge (hatchCell p w)) = length (creepAge w)"
  by (simp_all add: hatchCell_def Let_def split: option.split)

definition sameTerrain :: "world \<Rightarrow> world \<Rightarrow> bool" where
  "sameTerrain w v \<longleftrightarrow>
     cols v = cols w \<and> rows v = rows w \<and> terrainType v = terrainType w \<and>
     terrainHeight v = terrainHeight w \<and> noiseTexture1 v = noiseTexture1 w \<and>
     startCorner v = startCorner w \<and> totalVisibleCells v = totalVisibleCells w \<and>
     length (creepGrid v) = length (creepGrid w) \<and> length (creepAge v) = length (creepAge w)"

lemma stable_sameTerrain: "stable (sameTerrain w)"
  unfolding stable_def spawnStable_def sameTerrain_def by simp

lemma sameTerrain_refl: "sameTerrain w w"
  by (simp add: sameTerrain_def)

lemma spreadCreep_sameTerrain: "sameTerrain w (spreadCreep R w)"
  using stable_sameTerrain sameTerrain_refl by (rule spreadCreep_stable)

lemma maybeSpawn_sameTerrain: "sameTerrain w (maybeSpawnHatcheryNear R tx ty w)"
  using stable_sameTerrain sameTerrain_refl by (rule maybeSpawn_stable)

lemma checkResource_sameTerrain: "sameTerrain w (fst (checkResource R idx x y w))"
  using stable_sameTerrain sameTerrain_refl by (rule checkResource_stable)

lemma fold_hatchCell_boost [simp]: "resourceBoost (fold hatchCell ps w) = resourceBoost w"
  by (induction ps arbitrary: w) simp_all

lemma placeHatchery_boost [simp]: "resourceBoost (placeHatchery c w) = resourceBoost w"
  by (simp add: placeHatchery_def Let_def)

lemma maybeSpawn_boost [simp]: "resourceBoost (maybeSpawnHatcheryNear R tx ty w) = resourceBoost w"
  by (cases rule: maybeSpawn_cases [of w R tx ty]) simp_all

lemma claimMineral_boost [simp]:
  "resourceBoost (claimMineral R k w) = min 3 (resourceBoost w + 0.5)"
  by (simp add: claimMineral_def Let_def)

lemma claimVespene_boost [simp]:
  "resourceBoost (claimVespene R k w) = min 3 (resourceBoost w + 1)"
  by (simp add: claimVespene_def Let_def)

definition boostBetween :: "real \<Rightarrow> world \<Rightarrow> bool" where
  "boostBetween lo v \<longleftrightarrow> lo \<le> resourceBoost v \<and> resourceBoost v \<le> 3"

lemma stable_boostBetween: "lo \<le> 3 \<Longrightarrow> stable (boostBetween lo)"
  unfolding stable_def spawnStable_def boostBetween_def by simp

lemma spreadCreep_boost:
  assumes "resourceBoost w \<le> 3"
  shows "resourceBoost w \<le> resourceBoost (spreadCreep R w) \<and> resourceBoost (spreadCreep R w) \<le> 3"
proof -
  have "boostBetween (resourceBoost w) w" using assms by (simp add: boostBetween_def)
  with stable_boostBetween [OF assms] have "boostBetween (resourceBoost w) (spreadCreep R w)"
    by (rule spreadCreep_stable)
  then show ?thesis by (simp add: boostBetween_def)
qed

lemma initGrid_boost: "resourceBoost (initGrid R width height) = 1"
  by (rule initGrid_fields)

lemma run_boost:
  "1 \<le> resourceBoost ((spreadCreep R ^^ n) (initGrid R width height)) \<and>
   resourceBoost ((spreadCreep R ^^ n) (initGrid R width height)) \<le> 3"
proof (induction n)
  case 0
  show ?case by (simp add: initGrid_boost)
next
  case (Suc n)
  with spreadCreep_boost [of "(spreadCreep R ^^ n) (initGrid R width height)" R]
  show ?case by simp
qed

subsection \<open>The gathered counters and the candidates of a hatchery\<close>

definition gatheredOk :: "world \<Rightarrow> bool" where
  "gatheredOk v \<longleftrightarrow> 0 \<le> mineralsGathered v \<and> 0 \<le> vespeneGathered v"

lemma stable_gatheredOk: "stable gatheredOk"
  unfolding stable_def spawnStable_def gatheredOk_def
  by (simp add: HATCHERY_MINERAL_COST_def HATCHERY_VESPENE_COST_def)

lemma initGrid_gathered:
  "mineralsGathered (initGrid R width height) = 0" "vespeneGathered (initGrid R width height) = 0"
  by (rule initGrid_fields)+

lemma run_gatheredOk: "gatheredOk ((spreadCreep R ^^ n) (initGrid R width height))"
proof (induction n)
  case 0
  show ?case by (simp add: gatheredOk_def initGrid_gathered)
next
  case (Suc n)
  from stable_gatheredOk Suc have "gatheredOk (spreadCreep R ((spreadCreep R ^^ n) (initGrid R width height)))"
    by (rule spreadCreep_stable)
  then show ?case by simp
qed

lemma fold_hatchCell_buildings [simp]: "buildings (fold hatchCell ps w) = buildings w"
  by (induction ps arbitrary: w) simp_all

lemma placeHatchery_spend:
  "mineralsGathered (placeHatchery c w) = mineralsGathered w - HATCHERY_MINERAL_COST"
  "vespeneGathered (placeHatchery c w) = vespeneGathered w - HATCHERY_VESPENE_COST"
  "buildings (placeHatchery c w) =
     buildings w @ [\<lparr>bldX = fst c, bldY = snd c, bldType = hatchery, pulse = 0\<rparr>]"
  by (simp_all add: placeHatchery_def Let_def)

lemma candidates_drawn [simp]: "candidates (w\<lparr>drawn := n\<rparr>) tx ty = candidates w tx ty"
  by (simp add: candidates_def inGrid_def walkable_def creepAt_def)

lemma set_square: "set (square ds) = {(dx, dy). dx \<in> set ds \<and> dy \<in> set ds}"
  by (auto simp: square_def)

lemma set_square9:
  "set (square [-4, -3, -2, -1, 0, 1, 2, 3, 4]) = {(dx, dy). \<bar>dx\<bar> \<le> 4 \<and> \<bar>dy\<bar> \<le> (4::int)}"
proof -
  have "set [-4, -3, -2, -1, 0, 1, 2, 3, 4] = {d::int. \<bar>d\<bar> \<le> 4}"
    by (auto simp: abs_le_iff)
  then show ?thesis
    by (simp only: set_square mem_Collect_eq)
qed

lemma set_candidates:
  "set (candidates w tx ty) =
     {(x, y). \<bar>x - tx\<bar> \<le> 4 \<and> \<bar>y - ty\<bar> \<le> 4 \<and> inGrid w x y \<and>
        walkable w (y * cols w + x) \<and> creepAt w (y * cols w + x)}"
proof -
  have "set (map (\<lambda>(dx, dy). (tx + dx, ty + dy)) (square [-4, -3, -2, -1, 0, 1, 2, 3, 4])) =
          {(x, y). \<bar>x - tx\<bar> \<le> 4 \<and> \<bar>y - ty\<bar> \<le> 4}" (is "?L = ?R")
  proof
    show "?L \<subseteq> ?R"
      unfolding set_map set_square9 by auto
    show "?R \<subseteq> ?L"
    proof
      fix p assume "p \<in> ?R"
      then have "(fst p - tx, snd p - ty) \<in> {(dx, dy). \<bar>dx\<bar> \<le> 4 \<and> \<bar>dy\<bar> \<le> (4::int)}"
        by auto
      then have "(\<lambda>(dx, dy). (tx + dx, ty + dy)) (fst p - tx, snd p - ty) \<in> ?L"
        unfolding set_map set_square9 by (rule imageI)
      then show "p \<in> ?L" by simp
    qed
  qed
  then show ?thesis
    unfolding candidates_def set_filter by auto
qed

subsection \<open>Deposits within reach\<close>

definition inReach :: "int \<Rightarrow> int \<Rightarrow> int \<Rightarrow> deposit \<Rightarrow> bool" where
  "inReach rsq x y d \<longleftrightarrow>
     \<not> depleted d \<and> (x - depX d) * (x - depX d) + (y - depY d) * (y - depY d) < rsq"

lemma firstInRange_Some_iff:
  "firstInRange rsq x y ds = Some k \<longleftrightarrow>
     k < length ds \<and> inReach rsq x y (ds ! k) \<and> (\<forall>j<k. \<not> inReach rsq x y (ds ! j))"
proof (induction ds arbitrary: k)
  case Nil
  show ?case by simp
next
  case (Cons d ds)
  show ?case
  proof (cases "inReach rsq x y d")
    case True
    then show ?thesis
      by (cases k) (auto simp: inReach_def)
  next
    case False
    show ?thesis
    proof (cases k)
      case 0
      with False show ?thesis by (auto simp: inReach_def)
    next
      case (Suc k')
      with False Cons.IH [of k'] show ?thesis
        by (auto simp: inReach_def All_less_Suc2)
    qed
  qed
qed

lemma firstInRange_None_iff:
  "firstInRange rsq x y ds = None \<longleftrightarrow> (\<forall>d \<in> set ds. \<not> inReach rsq x y d)"
  by (induction ds) (auto simp: inReach_def)

lemma fold_hatchCell_deposits [simp]:
  "minerals (fold hatchCell ps w) = minerals w" "vespene (fold hatchCell ps w) = vespene w"
  by (induction ps arbitrary: w; simp)+

lemma placeHatchery_deposits [simp]:
  "minerals (placeHatchery c w) = minerals w" "vespene (placeHatchery c w) = vespene w"
  by (simp_all add: placeHatchery_def Let_def)

lemma maybeSpawn_deposits [simp]:
  "minerals (maybeSpawnHatcheryNear R tx ty w) = minerals w"
  "vespene (maybeSpawnHatcheryNear R tx ty w) = vespene w"
  by (cases rule: maybeSpawn_cases [of w R tx ty]; simp)+

lemma claimMineral_deposits [simp]:
  "minerals (claimMineral R k w) = (minerals w)[k := (minerals w ! k)\<lparr>depleted := True\<rparr>]"
  "vespene (claimMineral R k w) = vespene w"
  by (simp_all add: claimMineral_def Let_def)

lemma claimVespene_deposits [simp]:
  "vespene (claimVespene R k w) = (vespene w)[k := (vespene w ! k)\<lparr>depleted := True\<rparr>]"
  "minerals (claimVespene R k w) = minerals w"
  by (simp_all add: claimVespene_def Let_def)

subsection \<open>A small world for examples\<close>

definition demoWorld :: "deposit list \<Rightarrow> deposit list \<Rightarrow> world" where
  "demoWorld ms vs =
     \<lparr>cols = 3, rows = 3, creepGrid = [1, 0, 0, 0, 0, 0, 0, 0, 0],
      creepAge = [50, 0, 0, 0, 0, 0, 0, 0, 0],
      terrainHeight = [0.4, 0.4, 0.4, 0.4, 0.4, 0.4, 0.4, 0.4, 0.4],
      terrainType = [1, 1, 1, 1, 1, 1, 1, 1, 1],
      noiseTexture1 = [0.5, 0.5, 0.5, 0.5, 0.5, 0.5, 0.5, 0.5, 0.5],
      minerals = ms, vespene = vs,
      buildings = [\<lparr>bldX = 0, bldY = 0, bldType = hatchery, pulse = 0\<rparr>],
      startCorner = \<lparr>cornerX = 0, cornerY = 0, dirX = 1, dirY = 1\<rparr>,
      totalVisibleCells = 9, isSaturated = False, creepCount = 1, resourceBoost = 1,
      mineralsGathered = 0, vespeneGathered = 0, activeEdges = [0], drawn = 0\<rparr>"

definition dep :: "int \<Rightarrow> int \<Rightarrow> bool \<Rightarrow> deposit" where
  "dep x y b = \<lparr>depX = x, depY = y, depRadius = 3, depleted = b\<rparr>"

subsection \<open>The creep counter covers the occupied cells\<close>

definition occupied :: "world \<Rightarrow> nat" where
  "occupied w = length (filter (\<lambda>c. c \<noteq> 0) (creepGrid w))"

definition counted :: "world \<Rightarrow> bool" where
  "counted w \<longleftrightarrow>
     int (occupied w) \<le> creepCount w \<and> totalVisibleCells w = int (length (creepGrid w))"

lemma filter_update_length:
  "length (filter P (xs[i := v])) \<le> Suc (length (filter P xs))"
proof (induction xs arbitrary: i)
  case Nil
  show ?case by simp
next
  case (Cons x xs)
  show ?case
  proof (cases i)
    case 0
    then show ?thesis by simp
  next
    case (Suc j)
    with Cons.IH [of j] show ?thesis by simp
  qed
qed

lemma filter_wr_length: "length (filter P (wr xs i v)) \<le> Suc (length (filter P xs))"
  by (simp add: wr_def filter_update_length)

lemma occupied_grow:
  "int (occupied (v\<lparr>creepGrid := wr (creepGrid v) i 1, creepAge := a, creepCount := creepCount v + 1\<rparr>))
     \<le> int (occupied v) + 1"
  using filter_wr_length [of "\<lambda>c. c \<noteq> 0" "creepGrid v" i 1] by (simp add: occupied_def)

lemma counted_hatchCell: "counted v \<Longrightarrow> counted (hatchCell p v)"
proof -
  assume c: "counted v"
  have "counted (v\<lparr>creepGrid := wr (creepGrid v) i 1, creepAge := a,
          activeEdges := e, creepCount := creepCount v + 1\<rparr>)" for i a e
    using c filter_wr_length [of "\<lambda>c. c \<noteq> 0" "creepGrid v" i 1]
    by (simp add: counted_def occupied_def)
  moreover have "counted (v\<lparr>creepAge := a\<rparr>)" for a
    using c by (simp add: counted_def occupied_def)
  ultimately show ?thesis
    using c by (simp add: hatchCell_def Let_def split: option.split)
qed

lemma stable_counted: "stable counted"
proof -
  have g: "counted (v\<lparr>creepGrid := wr (creepGrid v) i 1, creepAge := wr (creepAge v) i 1,
               creepCount := creepCount v + 1\<rparr>)" if "counted v" for v i
    using that filter_wr_length [of "\<lambda>c. c \<noteq> 0" "creepGrid v" i 1]
    by (simp add: counted_def occupied_def)
  show ?thesis
    unfolding stable_def spawnStable_def
    by (intro conjI allI impI counted_hatchCell g) (simp_all add: counted_def occupied_def)
qed

lemma initGrid_counted: "counted (initGrid R width height)"
proof -
  have "length (filter (\<lambda>c. c \<noteq> 0) (wr (replicate n (0::nat)) i 1)) \<le> 1" for n i
    using filter_wr_length [of "\<lambda>c. c \<noteq> 0" "replicate n (0::nat)" i 1] by simp
  moreover have "0 \<le> gridCols width * gridCols height"
    using gridCols_nonneg [of width] gridCols_nonneg [of height] by simp
  ultimately show ?thesis
    by (simp add: counted_def occupied_def initGrid_fields)
qed

lemma run_counted: "counted ((spreadCreep R ^^ n) (initGrid R width height))"
proof (induction n)
  case 0
  show ?case by (simp add: initGrid_counted)
next
  case (Suc n)
  from stable_counted Suc have "counted (spreadCreep R ((spreadCreep R ^^ n) (initGrid R width height)))"
    by (rule spreadCreep_stable)
  then show ?case by simp
qed

lemma spreadCreep_saturates:
  "real_of_int (creepCount (spreadCreep R w)) \<ge> real_of_int (totalVisibleCells (spreadCreep R w)) * 0.98
     \<Longrightarrow> isSaturated (spreadCreep R w)"
  by (auto simp: spreadCreep_def Let_def split: if_splits)

lemma spreadCreep_saturated: "isSaturated w \<Longrightarrow> spreadCreep R w = w"
  by (simp add: spreadCreep_def)

subsection \<open>A world of two cells\<close>

definition tinyWorld :: world where
  "tinyWorld =
     \<lparr>cols = 2, rows = 1, creepGrid = [1, 0], creepAge = [50, 0],
      terrainHeight = [0.4, 0.4], terrainType = [1, 1], noiseTexture1 = [0.5, 0.5],
      minerals = [], vespene = [],
      buildings = [\<lparr>bldX = 0, bldY = 0, bldType = hatchery, pulse = 0\<rparr>],
      startCorner = \<lparr>cornerX = 0, cornerY = 0, dirX = 1, dirY = 1\<rparr>,
      totalVisibleCells = 2, isSaturated = False, creepCount = 1, resourceBoost = 1,
      mineralsGathered = 0, vespeneGathered = 0, activeEdges = [0], drawn = 0\<rparr>"

lemmas step_eval =
  spreadCreep_def scanFrom.simps visitCell_def scanNeighbors_def ageCell_def visitNeighbor_def
  neighbors_def Let_def inGrid_def rd_def wr_def jsRem_def checkResource_def spreadChance_def
  typeModAt_def terrainSpreadMods_def dirModOf_def resModOf_def noiseModAt_def mkDraw.rep_eq
  setAdd_def setDelete_def

lemma tinyWorld_step:
  "spreadCreep (\<lambda>_. mkDraw 0) tinyWorld =
     tinyWorld\<lparr>creepGrid := [1, 1], creepAge := [50.2, 1], creepCount := 2,
       activeEdges := [0, 1], isSaturated := True, drawn := 1\<rparr>"
  by (simp add: tinyWorld_def step_eval)

subsection \<open>The cells that a step scans\<close>

text \<open>
  \<open>scanned\<close> lists the cells that the loop over \<open>activeEdges\<close> visits in one step, in
  the order of the visits. It follows the recursion of \<open>scanFrom\<close> and records the cell
  of each iteration.
\<close>

function scannedFrom :: "rand \<Rightarrow> real \<Rightarrow> nat \<Rightarrow> scan \<Rightarrow> int list" where
  "scannedFrom R currentBoost i s =
     (if i < length (activeEdges (sw s))
      then (activeEdges (sw s) ! i) #
           scannedFrom R currentBoost (Suc i) (visitCell R currentBoost (activeEdges (sw s) ! i) s)
      else [])"
  by pat_completeness auto
termination
proof (relation "measure (\<lambda>(R, cb, i, s). potential (sw s) - i)")
  show "wf (measure (\<lambda>(R, cb, i, s). potential (sw s) - i))"
    by simp
next
  fix R :: rand and currentBoost :: real and i :: nat and s :: scan
  assume "i < length (activeEdges (sw s))"
  then have "i < potential (sw s)"
    by (simp add: potential_def)
  with visitCell_potential [of R currentBoost "activeEdges (sw s) ! i" s]
  show "((R, currentBoost, Suc i, visitCell R currentBoost (activeEdges (sw s) ! i) s),
         (R, currentBoost, i, s)) \<in> measure (\<lambda>(R, cb, i, s). potential (sw s) - i)"
    by simp
qed

definition scanned :: "rand \<Rightarrow> world \<Rightarrow> int list" where
  "scanned R w =
     (if isSaturated w then []
      else scannedFrom R (resourceBoost w) 0
             \<lparr>sw = w, newEdges = [], toRemove = [], hasEmptyNeighbor = False\<rparr>)"

subsection \<open>A world in which a discovery places a hatchery\<close>

text \<open>
  A grid of 3x3 cells of mid ground with the seed in the corner \<open>(0, 0)\<close>, two mineral
  deposits at \<open>(2, 0)\<close> and \<open>(0, 2)\<close> and a vespene deposit at \<open>(2, 2)\<close>. The draws
  make the growth rolls at the cells 1 and 3 fail (0.9), the hatchery coin flip pass (0.5),
  the first candidate be chosen (0), the growth roll at cell 4 succeed (0) and every later
  roll fail (0.9).
\<close>

definition bugWorld :: world where
  "bugWorld = demoWorld [dep 2 0 False, dep 0 2 False] [dep 2 2 False]"

definition bugDraws :: rand where
  "bugDraws k = mkDraw (if k = 2 then 0.5 else if k = 3 \<or> k = 4 then 0 else 0.9)"

lemmas spawn_eval =
  claimMineral_def claimVespene_def maybeSpawnHatcheryNear_def placeHatchery_def hatchArea_def
  hatchCell_def candidates_def square_def walkable_def creepAt_def HATCHERY_MINERAL_COST_def
  HATCHERY_VESPENE_COST_def HATCHERY_SPAWN_CHANCE_def

lemma bugWorld_step:
  "spreadCreep bugDraws bugWorld =
     bugWorld\<lparr>creepGrid := [1, 1, 0, 1, 1, 0, 0, 0, 0],
       creepAge := [50.2, 20.2, 0, 20.2, 1.2, 0, 0, 0, 0],
       minerals := [dep 2 0 True, dep 0 2 True], vespene := [dep 2 2 True],
       buildings := [\<lparr>bldX = 0, bldY = 0, bldType = hatchery, pulse = 0\<rparr>,
                     \<lparr>bldX = 2, bldY = 0, bldType = mineralpatch, pulse = 0\<rparr>,
                     \<lparr>bldX = 0, bldY = 2, bldType = mineralpatch, pulse = 0\<rparr>,
                     \<lparr>bldX = 2, bldY = 2, bldType = extractor, pulse = 0\<rparr>,
                     \<lparr>bldX = 0, bldY = 0, bldType = hatchery, pulse = 0\<rparr>],
       creepCount := 5, resourceBoost := 3, mineralsGathered := 0, vespeneGathered := 0,
       activeEdges := [0, 1, 3, 4], drawn := 14\<rparr>"
  by code_simp

subsection \<open>The growth threshold in the words of the specification\<close>

datatype terrain = LowGround | MidGround | HighPlateau | CliffWall | Water

definition terrainOf :: "nat \<Rightarrow> terrain" where
  "terrainOf t = [LowGround, MidGround, HighPlateau, CliffWall, Water] ! t"

fun terrainTypeMod :: "terrain \<Rightarrow> real" where
  "terrainTypeMod LowGround = 1.0"
| "terrainTypeMod MidGround = 0.9"
| "terrainTypeMod HighPlateau = 0.75"
| "terrainTypeMod CliffWall = 0.2"
| "terrainTypeMod Water = 0.15"

definition directionMod :: "bool \<Rightarrow> bool \<Rightarrow> real" where
  "directionMod awayX awayY = (if awayX \<and> awayY then 4.0 else if awayX \<noteq> awayY then 2.5 else 1.0)"

fun resourceDiscoveryMod :: "resource_kind option \<Rightarrow> real" where
  "resourceDiscoveryMod (Some gas) = 3.0"
| "resourceDiscoveryMod (Some mineral) = 2.0"
| "resourceDiscoveryMod None = 1.0"

definition noiseMod :: "real \<Rightarrow> real" where
  "noiseMod v = (if v > 0.75 then 1.5 else 1.0)"

text \<open>The threshold in the words of the specification, for a boost \<open>B\<close>.\<close>

definition threshold ::
  "real \<Rightarrow> real \<Rightarrow> terrain \<Rightarrow> bool \<Rightarrow> bool \<Rightarrow> resource_kind option \<Rightarrow> real \<Rightarrow> real" where
  "threshold B h T awayX awayY found v =
     0.002 * B * (1 - h * 0.5) * terrainTypeMod T * directionMod awayX awayY *
     resourceDiscoveryMod found * noiseMod v"

text \<open>The part of \<open>spreadCreep\<close> after the loop over the active edges.\<close>

definition finishStep :: "scan \<Rightarrow> world" where
  "finishStep s =
     (let w1 = sw s;
          e1 = fold (\<lambda>idx e. setDelete e idx) (toRemove s) (activeEdges w1);
          e2 = fold (\<lambda>idx e. setAdd e idx) (newEdges s) e1;
          w2 = w1\<lparr>activeEdges := e2\<rparr>
      in if real_of_int (creepCount w2) \<ge> real_of_int (totalVisibleCells w2) * 0.98
         then w2\<lparr>isSaturated := True\<rparr>
         else w2)"

lemma checkResource_boostOf:
  "resModOf (snd (checkResource R idx x y w)) =
     resourceDiscoveryMod (map_option resType (snd (checkResource R idx x y w)))"
  by (cases rule: checkResource_cases [of x y w R idx]) (simp_all add: resModOf_def)

lemma typeModAt_table:
  "rd (terrainType w) n = Some t \<Longrightarrow> t \<le> 4 \<Longrightarrow> typeModAt w n = terrainTypeMod (terrainOf t)"
proof -
  assume "rd (terrainType w) n = Some t" and "t \<le> 4"
  then consider "t = 0" | "t = 1" | "t = 2" | "t = 3" | "t = 4"
    by linarith
  then show ?thesis
    using \<open>rd (terrainType w) n = Some t\<close>
    by cases (simp_all add: typeModAt_def terrainSpreadMods_def terrainOf_def rd_def)
qed

lemma dirModOf_directionMod:
  "dirModOf c dx dy = directionMod (dx = dirX c) (dy = dirY c)"
  by (auto simp: dirModOf_def directionMod_def Let_def)

lemma spreadChance_threshold:
  assumes "rd (terrainHeight w) n = Some h"
    and "rd (terrainType w) n = Some t" and "t \<le> 4"
    and "rd (noiseTexture1 w1) n = Some v"
  shows "spreadChance B w w1 n dx dy (snd (checkResource R idx x y w)) =
           Some (threshold B h (terrainOf t) (dx = dirX (startCorner w)) (dy = dirY (startCorner w))
                   (map_option resType (snd (checkResource R idx x y w))) v)"
  using assms typeModAt_table [OF assms(2,3)]
  by (simp add: spreadChance_def threshold_def Let_def checkResource_boostOf dirModOf_directionMod
      noiseModAt_def noiseMod_def)

subsection \<open>A world with one mineral deposit\<close>

text \<open>
  The 3x3 world with one undepleted mineral deposit at \<open>(2, 0)\<close>, and a random source
  that always returns 0.009.
\<close>

definition mineralWorld :: world where
  "mineralWorld = demoWorld [dep 2 0 False] []"

definition lowDraws :: rand where
  "lowDraws k = mkDraw 0.009"

definition startScan :: "world \<Rightarrow> scan" where
  "startScan w = \<lparr>sw = w, newEdges = [], toRemove = [], hasEmptyNeighbor = False\<rparr>"

lemma mineralWorld_reads:
  "inGrid mineralWorld 1 0" "rd (creepGrid mineralWorld) 1 = Some 0"
  "rd (terrainHeight mineralWorld) 1 = Some 0.4" "rd (terrainType mineralWorld) 1 = Some 1"
  "rd (noiseTexture1 mineralWorld) 1 = Some 0.5" "cols mineralWorld = 3"
  "dirX (startCorner mineralWorld) = 1" "dirY (startCorner mineralWorld) = 1"
  "drawn mineralWorld = 0"
  by (simp_all add: mineralWorld_def demoWorld_def inGrid_def rd_def)

lemma mineralWorld_check:
  "checkResource lowDraws 1 1 0 mineralWorld =
     (mineralWorld\<lparr>minerals := [dep 2 0 True], resourceBoost := 1.5, mineralsGathered := 1,
        buildings := [\<lparr>bldX = 0, bldY = 0, bldType = hatchery, pulse = 0\<rparr>,
                      \<lparr>bldX = 2, bldY = 0, bldType = mineralpatch, pulse = 0\<rparr>]\<rparr>,
      Some \<lparr>resType = mineral, boost = 2\<rparr>)"
  by code_simp

lemma mineralWorld_step:
  "creepGrid (spreadCreep lowDraws mineralWorld) = [1, 0, 0, 0, 0, 0, 0, 0, 0]"
  by code_simp

subsection \<open>Terrain classification\<close>

text \<open>
  The codes of the five terrain types, the type of a cell before the cliff pass and the
  cliff test, in the words of the specification.
\<close>

fun terrainCode :: "terrain \<Rightarrow> nat" where
  "terrainCode LowGround = 0"
| "terrainCode MidGround = 1"
| "terrainCode HighPlateau = 2"
| "terrainCode CliffWall = 3"
| "terrainCode Water = 4"

definition heightType :: "real list \<Rightarrow> nat list \<Rightarrow> nat \<Rightarrow> nat" where
  "heightType h expandedWater i =
     (if expandedWater ! i \<noteq> 0 then 4
      else if h ! i < 0.32 then 0
      else if h ! i < 0.6 then 1
      else 2)"

definition neighbors4 :: "int \<Rightarrow> int \<Rightarrow> int \<Rightarrow> int \<Rightarrow> (int \<times> int) list" where
  "neighbors4 c r x y =
     filter (\<lambda>(nx, ny). 0 \<le> nx \<and> nx < c \<and> 0 \<le> ny \<and> ny < r)
       [(x - 1, y), (x + 1, y), (x, y - 1), (x, y + 1)]"

definition maxHeightDiff :: "int \<Rightarrow> int \<Rightarrow> real list \<Rightarrow> int \<Rightarrow> int \<Rightarrow> real" where
  "maxHeightDiff c r h x y =
     fold (\<lambda>(nx, ny) m. max m \<bar>h ! nat (y * c + x) - h ! nat (ny * c + nx)\<bar>)
       (neighbors4 c r x y) 0"

definition isCliff :: "int \<Rightarrow> int \<Rightarrow> real list \<Rightarrow> int \<times> int \<Rightarrow> bool" where
  "isCliff c r h p = (maxHeightDiff c r h (fst p) (snd p) > 0.08)"

lemma fold_assignType_nth:
  "\<forall>j \<in> set ps. j < length tt \<Longrightarrow> i < length tt \<Longrightarrow>
     fold (assignType h ew) ps tt ! i = (if i \<in> set ps then heightType h ew i else tt ! i)"
proof (induction ps arbitrary: tt)
  case Nil
  show ?case by simp
next
  case (Cons p ps)
  have l: "length (assignType h ew p tt) = length tt"
    by (simp add: assignType_def Let_def)
  have n: "assignType h ew p tt ! i = (if i = p then heightType h ew i else tt ! i)"
    using Cons.prems by (auto simp: assignType_def heightType_def Let_def)
  from Cons.prems have "\<forall>j \<in> set ps. j < length (assignType h ew p tt)"
    by (simp add: l)
  from Cons.IH [OF this] Cons.prems(2) n show ?case
    by (auto simp: l)
qed

lemma length_fold_assignType [simp]: "length (fold (assignType h ew) ps tt) = length tt"
  by (induction ps arbitrary: tt) (simp_all add: assignType_def Let_def)

lemma assignTypes_nth:
  "i < nat (c * r) \<Longrightarrow> assignTypes c r h ew ! i = heightType h ew i"
  by (simp add: assignTypes_def fold_assignType_nth)

lemma length_assignTypes [simp]: "length (assignTypes c r h ew) = nat (c * r)"
  by (simp add: assignTypes_def)

lemma cell_index_less:
  assumes "0 \<le> x" "x < c" "0 \<le> y" "y < r"
  shows "0 \<le> y * c + x" and "y * c + x < c * (r::int)"
proof -
  from assms show "0 \<le> y * c + x" by simp
  from assms have "y + 1 \<le> r" by simp
  then have "(y + 1) * c \<le> r * c"
    using assms by (intro mult_right_mono) simp_all
  with assms show "y * c + x < c * r"
    by (simp add: algebra_simps)
qed

lemma cell_index_inj:
  assumes "0 \<le> x" "x < c" "0 \<le> x'" "x' < c" "y * c + x = y' * c + (x'::int)"
  shows "x = x' \<and> y = y'"
proof -
  have "(y * c + x) mod c = x" "(y' * c + x') mod c = x'"
    using assms(1-4) by simp_all
  then have x: "x = x'"
    by (simp only: assms(5))
  with assms have "y * c = y' * c" by simp
  with assms x show ?thesis by simp
qed

text \<open>The code's chain of four tests computes the maximum over the neighbours in the grid.\<close>

lemma neighbors4_split:
  assumes "0 \<le> x" "x < c" "0 \<le> y" "y < r"
  shows "neighbors4 c r x y =
           (if x > 0 then [(x - 1, y)] else []) @ (if x < c - 1 then [(x + 1, y)] else []) @
           (if y > 0 then [(x, y - 1)] else []) @ (if y < r - 1 then [(x, y + 1)] else [])"
  using assms by (auto simp: neighbors4_def)

lemma fold_if_single: "fold f (if b then [p] else []) m = (if b then f p m else m)"
  by simp

lemma cliffCell_eq:
  assumes "0 \<le> x" "x < c" "0 \<le> y" "y < r"
  shows "cliffCell c r h (x, y) tt =
           (if tt ! nat (y * c + x) = 4 then tt
            else if isCliff c r h (x, y) then tt[nat (y * c + x) := 3] else tt)"
proof -
  have e: "y * c + x - 1 = y * c + (x - 1)" "y * c + x + 1 = y * c + (x + 1)"
    "y * c + x - c = (y - 1) * c + x" "y * c + x + c = (y + 1) * c + x"
    by (simp_all add: algebra_simps)
  show ?thesis
    unfolding cliffCell_def isCliff_def maxHeightDiff_def neighbors4_split [OF assms]
      fold_append fold_if_single comp_def Let_def fst_conv snd_conv case_prod_conv e
    by (rule refl)
qed

lemma set_gridCells: "set (gridCells c r) = {(x, y). 0 \<le> x \<and> x < c \<and> 0 \<le> y \<and> y < r}"
  by (auto simp: gridCells_def)

lemma fold_cliffCell_nth:
  assumes "set ps \<subseteq> set (gridCells c r)" and "length tt = nat (c * r)" and "i < length tt"
  shows "length (fold (cliffCell c r h) ps tt) = length tt \<and>
         fold (cliffCell c r h) ps tt ! i =
           (if tt ! i = 4 then 4
            else if \<exists>p \<in> set ps. nat (snd p * c + fst p) = i \<and> isCliff c r h p then 3
            else tt ! i)"
  using assms
proof (induction ps arbitrary: tt)
  case Nil
  then show ?case by simp
next
  case (Cons p ps)
  obtain x y where p: "p = (x, y)" by (cases p)
  with Cons.prems(1) have xy: "0 \<le> x" "x < c" "0 \<le> y" "y < r"
    by (simp_all add: set_gridCells)
  let ?k = "nat (y * c + x)"
  let ?tt = "cliffCell c r h p tt"
  from cell_index_less [OF xy] Cons.prems(2) have k: "?k < length tt"
    by simp
  have l: "length ?tt = length tt"
    by (simp add: p cliffCell_eq [OF xy])
  have n: "?tt ! i = (if tt ! i = 4 then 4 else if ?k = i \<and> isCliff c r h p then 3 else tt ! i)"
    using k Cons.prems(3) by (auto simp: p cliffCell_eq [OF xy] nth_list_update)
  from Cons.prems have "set ps \<subseteq> set (gridCells c r)" "length ?tt = nat (c * r)" "i < length ?tt"
    by (simp_all add: l)
  from Cons.IH [OF this] l n show ?case
    by (auto simp: p)
qed

lemma detectCliffs_nth:
  assumes "0 \<le> x" "x < c" "0 \<le> y" "y < r" and "length tt = nat (c * r)"
  shows "detectCliffs c r h tt ! nat (y * c + x) =
           (if tt ! nat (y * c + x) = 4 then 4
            else if isCliff c r h (x, y) then 3
            else tt ! nat (y * c + x))"
proof -
  from cell_index_less [OF assms(1-4)] assms(5) have k: "nat (y * c + x) < length tt"
    by simp
  have "(\<exists>p \<in> set (gridCells c r). nat (snd p * c + fst p) = nat (y * c + x) \<and> isCliff c r h p)
          \<longleftrightarrow> isCliff c r h (x, y)"
  proof
    assume "\<exists>p \<in> set (gridCells c r). nat (snd p * c + fst p) = nat (y * c + x) \<and> isCliff c r h p"
    then obtain x' y' where p: "0 \<le> x'" "x' < c" "0 \<le> y'" "y' < r"
      "nat (y' * c + x') = nat (y * c + x)" "isCliff c r h (x', y')"
      by (auto simp: set_gridCells)
    from cell_index_less(1) [OF p(1-4)] cell_index_less(1) [OF assms(1-4)] p(5)
    have "y' * c + x' = y * c + x" by simp
    with cell_index_inj [OF p(1,2) assms(1,2)] have "x' = x \<and> y' = y" by simp
    with p(6) show "isCliff c r h (x, y)" by simp
  next
    assume "isCliff c r h (x, y)"
    with assms show "\<exists>p \<in> set (gridCells c r). nat (snd p * c + fst p) = nat (y * c + x) \<and> isCliff c r h p"
      by (intro bexI [of _ "(x, y)"]) (simp_all add: set_gridCells)
  qed
  with fold_cliffCell_nth [OF subset_refl assms(5) k, of h] show ?thesis
    by (simp add: detectCliffs_def)
qed


definition expandedWaterOf :: "rand \<Rightarrow> int \<Rightarrow> int \<Rightarrow> nat list" where
  "expandedWaterOf R c r =
     (let h = smoothHeight c r (baseHeight c r)
      in expandWater c r h (fst (waterBodies R c r h 0)))"

lemma length_smoothHeight [simp]: "length (smoothHeight c r b) = nat (c * r)"
proof -
  have "length (fold (smoothCell c r b) ps sm) = length sm" for ps sm
    by (induction ps arbitrary: sm) (simp_all add: smoothCell_def Let_def)
  then show ?thesis by (simp add: smoothHeight_def)
qed

lemma length_expandCell [simp]: "length (expandCell c r h wm p e) = length e"
proof -
  have "length (fold (expandNeighbor c h) ps e') = length e'" for ps e'
    by (induction ps arbitrary: e') (simp_all add: expandNeighbor_def Let_def)
  then show ?thesis by (simp add: expandCell_def Let_def)
qed

lemma length_expandWater [simp]: "length (expandWater c r h wm) = nat (c * r)"
proof -
  have "length (fold (expandCell c r h wm) ps e) = length e" for ps e
    by (induction ps arbitrary: e) simp_all
  then show ?thesis by (simp add: expandWater_def)
qed

lemma makeTerrain_types:
  "fst (snd (makeTerrain R c r)) =
     detectCliffs c r (fst (makeTerrain R c r))
       (assignTypes c r (fst (makeTerrain R c r)) (expandedWaterOf R c r))"
  "length (fst (makeTerrain R c r)) = nat (c * r)"
  "length (expandedWaterOf R c r) = nat (c * r)"
  by (simp_all add: makeTerrain_def expandedWaterOf_def Let_def)

definition classify :: "int \<Rightarrow> int \<Rightarrow> real list \<Rightarrow> nat list \<Rightarrow> int \<Rightarrow> int \<Rightarrow> terrain" where
  "classify c r h expandedWater x y =
     (if expandedWater ! nat (y * c + x) \<noteq> 0 then Water
      else if maxHeightDiff c r h x y > 0.08 then CliffWall
      else if h ! nat (y * c + x) < 0.32 then LowGround
      else if h ! nat (y * c + x) < 0.6 then MidGround
      else HighPlateau)"

subsection \<open>A height field with one spike\<close>

text \<open>
  A 3x3 field that is 0 everywhere except for a spike of 1 in the middle, with the cell
  above the spike in the water mask.
\<close>

definition spikeHeight :: "real list" where
  "spikeHeight = [0, 0, 0, 0, 1, 0, 0, 0, 0]"

definition spikeWater :: "nat list" where
  "spikeWater = [0, 1, 0, 0, 0, 0, 0, 0, 0]"

lemma spike_types:
  "detectCliffs 3 3 spikeHeight (assignTypes 3 3 spikeHeight spikeWater) = [0, 4, 0, 3, 3, 3, 0, 3, 0]"
  by code_simp

subsection \<open>A grid without cells\<close>

lemma visitNeighbor_no_rows: "rows (sw s) \<le> 0 \<Longrightarrow> visitNeighbor R cb x y d s = s"
  by (simp add: visitNeighbor_def Let_def inGrid_def) linarith

lemma fold_visitNeighbor_no_rows:
  "rows (sw s) \<le> 0 \<Longrightarrow> fold (visitNeighbor R cb x y) ds s = s"
  by (induction ds) (simp_all add: visitNeighbor_no_rows)

lemma scanNeighbors_no_cells:
  "cols (sw s) = 0 \<or> rows (sw s) = 0 \<Longrightarrow> scanNeighbors R cb idx s = s\<lparr>hasEmptyNeighbor := False\<rparr>"
  by (auto simp: scanNeighbors_def Let_def fold_visitNeighbor_no_rows)

lemma rd_Nil [simp]: "rd [] i = None"
  by (auto simp: rd_def)

lemma wr_Nil [simp]: "wr [] i v = []"
  by (simp add: wr_def)

lemma visitCell_no_cells:
  assumes "cols (sw s) = 0 \<or> rows (sw s) = 0" and "creepAge (sw s) = []"
  shows "visitCell R cb idx s = s\<lparr>hasEmptyNeighbor := False, toRemove := toRemove s @ [idx]\<rparr>"
  using assms by (simp add: visitCell_def scanNeighbors_no_cells ageCell_def Let_def)

lemma spreadCreep_no_cells:
  assumes "cols w = 0 \<or> rows w = 0" and "creepAge w = []" and "\<not> isSaturated w"
    and "activeEdges w = [i]" and "totalVisibleCells w = 0" and "0 \<le> creepCount w"
  shows "spreadCreep R w = w\<lparr>activeEdges := [], isSaturated := True\<rparr>"
proof -
  let ?s0 = "\<lparr>sw = w, newEdges = [], toRemove = [], hasEmptyNeighbor = False\<rparr>"
  let ?s1 = "\<lparr>sw = w, newEdges = [], toRemove = [i], hasEmptyNeighbor = False\<rparr>"
  have "scanFrom R (resourceBoost w) 0 ?s0 =
          scanFrom R (resourceBoost w) (Suc 0) (visitCell R (resourceBoost w) i ?s0)"
    using assms(4) by (subst scanFrom.simps) simp
  also have "visitCell R (resourceBoost w) i ?s0 = ?s1"
    using assms(1,2) by (simp add: visitCell_no_cells)
  also have "scanFrom R (resourceBoost w) (Suc 0) ?s1 = ?s1"
    using assms(4) by (subst scanFrom.simps) simp
  finally show ?thesis
    using assms(3-6) by (simp add: spreadCreep_def Let_def setDelete_def)
qed

subsection \<open>The frontier\<close>

text \<open>
  A cell is occupied when \<open>creepGrid\<close> holds 1 at its index, and it has an unoccupied
  neighbour when one of its eight neighbours lies in the grid and holds 0, the two tests
  that \<open>spreadCreep\<close> makes. \<open>frontierInv w E T\<close> relates a world to a set \<open>E\<close> of
  frontier cells and a set \<open>T\<close> of cells to remove: the grid is well formed, the cells
  of \<open>E\<close> are occupied, every occupied cell with an unoccupied neighbour is in \<open>E\<close>, and
  no cell of \<open>T\<close> has an unoccupied neighbour. During the scan \<open>E\<close> is \<open>activeEdges\<close>
  together with \<open>newEdges\<close> and \<open>T\<close> is \<open>toRemove\<close>; between steps \<open>E\<close> is
  \<open>activeEdges\<close> and \<open>T\<close> is empty.
\<close>

definition occupiedAt :: "world \<Rightarrow> int \<Rightarrow> bool" where
  "occupiedAt w i \<longleftrightarrow> rd (creepGrid w) i = Some 1"

definition emptyAt :: "world \<Rightarrow> int \<Rightarrow> int \<Rightarrow> int \<times> int \<Rightarrow> bool" where
  "emptyAt w x y d \<longleftrightarrow>
     inGrid w (x + fst d) (y + snd d) \<and> rd (creepGrid w) (nbIndex w x y d) = Some 0"

definition hasUnoccupiedNeighbor :: "world \<Rightarrow> int \<Rightarrow> bool" where
  "hasUnoccupiedNeighbor w i \<longleftrightarrow> list_ex (emptyAt w (i mod cols w) (i div cols w)) neighbors"

definition gridOk :: "world \<Rightarrow> bool" where
  "gridOk w \<longleftrightarrow>
     0 < cols w \<and> 0 < rows w \<and> length (creepGrid w) = nat (cols w * rows w) \<and>
     set (creepGrid w) \<subseteq> {0, 1}"

definition frontierInv :: "world \<Rightarrow> int set \<Rightarrow> int set \<Rightarrow> bool" where
  "frontierInv w E T \<longleftrightarrow>
     gridOk w \<and> (\<forall>i \<in> E. occupiedAt w i) \<and>
     (\<forall>i. occupiedAt w i \<and> hasUnoccupiedNeighbor w i \<longrightarrow> i \<in> E) \<and>
     (\<forall>i \<in> T. \<not> hasUnoccupiedNeighbor w i)"

definition frontierOk :: "world \<Rightarrow> bool" where
  "frontierOk w \<longleftrightarrow> frontierInv w (set (activeEdges w)) {}"

definition scanOk :: "scan \<Rightarrow> bool" where
  "scanOk s \<longleftrightarrow>
     frontierInv (sw s) (set (activeEdges (sw s)) \<union> set (newEdges s)) (set (toRemove s))"

lemma rd_wr:
  "rd (wr xs j v) i = (if i = j \<and> 0 \<le> j \<and> j < int (length xs) then Some v else rd xs i)"
  by (auto simp: rd_def wr_def)

lemma emptyAt_cong:
  assumes "cols v' = cols v" "rows v' = rows v" "creepGrid v' = creepGrid v"
  shows "emptyAt v' x y d = emptyAt v x y d"
  unfolding emptyAt_def inGrid_def nbIndex_def assms by (rule refl)

lemma hasUnoccupiedNeighbor_cong:
  assumes "cols v' = cols v" "rows v' = rows v" "creepGrid v' = creepGrid v"
  shows "hasUnoccupiedNeighbor v' i = hasUnoccupiedNeighbor v i"
  unfolding hasUnoccupiedNeighbor_def list_ex_iff emptyAt_cong [OF assms] assms(1) by (rule refl)

lemma frontierInv_cong:
  assumes "cols v' = cols v" "rows v' = rows v" "creepGrid v' = creepGrid v"
  shows "frontierInv v' E T = frontierInv v E T"
  unfolding frontierInv_def gridOk_def occupiedAt_def hasUnoccupiedNeighbor_cong [OF assms] assms
  by (rule refl)

lemma emptyAt_occupy:
  assumes "cols v' = cols v" "rows v' = rows v" "creepGrid v' = wr (creepGrid v) j 1"
    and "emptyAt v' x y d"
  shows "emptyAt v x y d"
proof -
  from assms(4) have i: "inGrid v' (x + fst d) (y + snd d)"
    and r: "rd (creepGrid v') (nbIndex v' x y d) = Some 0"
    by (simp_all add: emptyAt_def)
  from i assms(1,2) have i': "inGrid v (x + fst d) (y + snd d)"
    by (simp add: inGrid_def)
  have n: "nbIndex v' x y d = nbIndex v x y d"
    by (simp add: nbIndex_def assms(1))
  from r have "rd (creepGrid v) (nbIndex v x y d) = Some 0"
    unfolding n assms(3) rd_wr by (simp split: if_splits)
  with i' show ?thesis by (simp add: emptyAt_def)
qed

lemma hasUnoccupiedNeighbor_occupy:
  assumes "cols v' = cols v" "rows v' = rows v" "creepGrid v' = wr (creepGrid v) j 1"
    and "hasUnoccupiedNeighbor v' i"
  shows "hasUnoccupiedNeighbor v i"
proof -
  from assms(4) obtain d where d: "d \<in> set neighbors" "emptyAt v' (i mod cols v') (i div cols v') d"
    by (auto simp: hasUnoccupiedNeighbor_def list_ex_iff)
  from emptyAt_occupy [OF assms(1-3) d(2)] have "emptyAt v (i mod cols v) (i div cols v) d"
    by (simp add: assms(1))
  with d(1) show ?thesis
    by (auto simp: hasUnoccupiedNeighbor_def list_ex_iff)
qed

lemma frontierInv_occupy:
  assumes inv: "frontierInv v E T" and j: "0 \<le> j" "j < cols v * rows v"
    and v': "cols v' = cols v" "rows v' = rows v" "creepGrid v' = wr (creepGrid v) j 1"
  shows "frontierInv v' (insert j E) T"
proof -
  from inv have g: "gridOk v" and e: "\<forall>i \<in> E. occupiedAt v i"
    and c: "\<forall>i. occupiedAt v i \<and> hasUnoccupiedNeighbor v i \<longrightarrow> i \<in> E"
    and t: "\<forall>i \<in> T. \<not> hasUnoccupiedNeighbor v i"
    by (simp_all add: frontierInv_def)
  from g have gl: "0 < cols v" "0 < rows v" "length (creepGrid v) = nat (cols v * rows v)"
    and gs: "set (creepGrid v) \<subseteq> {0, 1}"
    by (simp_all add: gridOk_def)
  from gl j have jl: "j < int (length (creepGrid v))"
    by simp
  have "set (wr (creepGrid v) j 1) \<subseteq> insert 1 (set (creepGrid v))"
    unfolding wr_def by (simp add: set_update_subset_insert subset_insertI)
  also from gs have "\<dots> \<subseteq> {0, 1}" by blast
  finally have "set (creepGrid v') \<subseteq> {0, 1}"
    by (simp only: v')
  moreover have "length (creepGrid v') = nat (cols v' * rows v')"
    using gl(3) by (simp add: v' wr_def)
  ultimately have g': "gridOk v'"
    using gl(1,2) by (simp add: gridOk_def v'(1,2))
  have o: "occupiedAt v' i \<longleftrightarrow> i = j \<or> occupiedAt v i" for i
    unfolding occupiedAt_def v' rd_wr using j(1) jl by simp
  have e': "\<forall>i \<in> insert j E. occupiedAt v' i"
  proof
    fix i assume "i \<in> insert j E"
    with e have "i = j \<or> occupiedAt v i" by auto
    then show "occupiedAt v' i" by (simp only: o)
  qed
  have c': "\<forall>i. occupiedAt v' i \<and> hasUnoccupiedNeighbor v' i \<longrightarrow> i \<in> insert j E"
  proof (intro allI impI)
    fix i assume a: "occupiedAt v' i \<and> hasUnoccupiedNeighbor v' i"
    then have h: "hasUnoccupiedNeighbor v i"
      by (intro hasUnoccupiedNeighbor_occupy [OF v']) simp
    from a have "i = j \<or> occupiedAt v i" by (simp only: o)
    with h c show "i \<in> insert j E" by auto
  qed
  have t': "\<forall>i \<in> T. \<not> hasUnoccupiedNeighbor v' i"
  proof
    fix i assume "i \<in> T"
    with t have "\<not> hasUnoccupiedNeighbor v i" by simp
    then show "\<not> hasUnoccupiedNeighbor v' i"
      using hasUnoccupiedNeighbor_occupy [OF v', of i] by auto
  qed
  from g' e' c' t' show ?thesis
    unfolding frontierInv_def by (intro conjI)
qed

lemma set_setAdd [simp]: "set (setAdd s i) = insert i (set s)"
  by (auto simp: setAdd_def)

lemma inGrid_index:
  assumes "gridOk w" and "inGrid w x y"
  shows "0 \<le> y * cols w + x" and "y * cols w + x < cols w * rows w"
proof -
  from assms(2) have xy: "0 \<le> x" "x < cols w" "0 \<le> y" "y < rows w"
    by (simp_all add: inGrid_def)
  from cell_index_less [OF xy] show "0 \<le> y * cols w + x" and "y * cols w + x < cols w * rows w"
    by simp_all
qed

definition edgesInv :: "int set \<Rightarrow> int set \<Rightarrow> world \<Rightarrow> bool" where
  "edgesInv N T v \<longleftrightarrow> frontierInv v (set (activeEdges v) \<union> N) T"

lemma hatchCell_cases:
  obtains (skip) "hatchCell p w = w"
  | (age) a where "hatchCell p w = w\<lparr>creepAge := a\<rparr>"
  | (occupy) "inGrid w (fst p) (snd p)"
      and "hatchCell p w =
             w\<lparr>creepGrid := wr (creepGrid w) (snd p * cols w + fst p) 1,
               creepAge := wr (creepAge w) (snd p * cols w + fst p) 20,
               activeEdges := setAdd (activeEdges w) (snd p * cols w + fst p),
               creepCount := creepCount w + 1\<rparr>"
proof (cases "inGrid w (fst p) (snd p) \<and> walkable w (snd p * cols w + fst p)")
  case False
  then have "hatchCell p w = w"
    by (auto simp: hatchCell_def Let_def)
  then show ?thesis by (rule skip)
next
  case True
  show ?thesis
  proof (cases "creepAt w (snd p * cols w + fst p)")
    case True
    with \<open>inGrid w (fst p) (snd p) \<and> walkable w (snd p * cols w + fst p)\<close>
    have "hatchCell p w = w\<lparr>creepAge := (case rd (creepAge w) (snd p * cols w + fst p) of
                              Some a \<Rightarrow> wr (creepAge w) (snd p * cols w + fst p) (max a 20)
                            | None \<Rightarrow> creepAge w)\<rparr>"
      by (simp add: hatchCell_def Let_def)
    then show ?thesis by (rule age)
  next
    case False
    with \<open>inGrid w (fst p) (snd p) \<and> walkable w (snd p * cols w + fst p)\<close>
    show ?thesis
      by (intro occupy) (simp_all add: hatchCell_def Let_def)
  qed
qed

lemma edgesInv_hatchCell:
  assumes "edgesInv N T v"
  shows "edgesInv N T (hatchCell p v)"
proof -
  let ?idx = "snd p * cols v + fst p"
  from assms have inv: "frontierInv v (set (activeEdges v) \<union> N) T"
    by (simp only: edgesInv_def)
  then have g: "gridOk v" by (simp only: frontierInv_def)
  show ?thesis
  proof (cases rule: hatchCell_cases [of p v])
    case skip
    with assms show ?thesis by (simp only:)
  next
    case (age a)
    have "frontierInv (v\<lparr>creepAge := a\<rparr>) (set (activeEdges v) \<union> N) T =
            frontierInv v (set (activeEdges v) \<union> N) T"
      by (rule frontierInv_cong) simp_all
    with inv have "frontierInv (v\<lparr>creepAge := a\<rparr>) (set (activeEdges (v\<lparr>creepAge := a\<rparr>)) \<union> N) T"
      by simp
    then show ?thesis by (simp only: edgesInv_def age)
  next
    case occupy
    let ?v' = "v\<lparr>creepGrid := wr (creepGrid v) ?idx 1,
               creepAge := wr (creepAge v) ?idx 20,
               activeEdges := setAdd (activeEdges v) ?idx,
               creepCount := creepCount v + 1\<rparr>"
    have "frontierInv ?v' (insert ?idx (set (activeEdges v) \<union> N)) T"
    proof (rule frontierInv_occupy [OF inv])
      show "0 \<le> ?idx" by (rule inGrid_index(1) [OF g occupy(1)])
      show "?idx < cols v * rows v" by (rule inGrid_index(2) [OF g occupy(1)])
    qed simp_all
    moreover have "set (activeEdges ?v') \<union> N = insert ?idx (set (activeEdges v) \<union> N)"
      by simp
    ultimately have "frontierInv ?v' (set (activeEdges ?v') \<union> N) T"
      by (simp only:)
    then show ?thesis
      by (simp only: edgesInv_def occupy(2))
  qed
qed

lemma edgesInv_cong:
  assumes "edgesInv N T v" and "cols v' = cols v" "rows v' = rows v" "creepGrid v' = creepGrid v"
    and "activeEdges v' = activeEdges v"
  shows "edgesInv N T v'"
  using assms(1) unfolding edgesInv_def assms(5) frontierInv_cong [OF assms(2-4)] .

lemma spawnStable_edgesInv: "spawnStable (edgesInv N T)"
  unfolding spawnStable_def
proof (intro conjI allI impI)
  fix v p assume "edgesInv N T v"
  then show "edgesInv N T (hatchCell p v)" by (rule edgesInv_hatchCell)
qed (erule edgesInv_cong; simp)+


definition gridLe :: "world \<Rightarrow> world \<Rightarrow> bool" where
  "gridLe w v \<longleftrightarrow>
     cols v = cols w \<and> rows v = rows w \<and>
     (\<forall>k. rd (creepGrid v) k = Some 0 \<longrightarrow> rd (creepGrid w) k = Some 0)"

lemma gridLe_refl: "gridLe w w"
  by (simp add: gridLe_def)

lemma gridLe_cong:
  assumes "gridLe w v" and "cols v' = cols v" "rows v' = rows v" "creepGrid v' = creepGrid v"
  shows "gridLe w v'"
  using assms(1) unfolding gridLe_def assms(2-4) .

lemma gridLe_occupy:
  assumes "gridLe w v" and "cols v' = cols v" "rows v' = rows v"
    and "creepGrid v' = wr (creepGrid v) j 1"
  shows "gridLe w v'"
proof -
  have "rd (creepGrid v) k = Some 0" if "rd (wr (creepGrid v) j 1) k = Some 0" for k
    using that unfolding rd_wr by (simp split: if_splits)
  with assms(1) show ?thesis
    unfolding gridLe_def assms(2-4) by blast
qed

lemma gridLe_hatchCell: "gridLe w v \<Longrightarrow> gridLe w (hatchCell p v)"
proof (cases rule: hatchCell_cases [of p v])
  case skip
  assume "gridLe w v"
  with skip show ?thesis by (simp only:)
next
  case (age a)
  assume "gridLe w v"
  then have "gridLe w (v\<lparr>creepAge := a\<rparr>)" by (rule gridLe_cong) simp_all
  with age show ?thesis by (simp only:)
next
  case occupy
  assume "gridLe w v"
  then have "gridLe w (v\<lparr>creepGrid := wr (creepGrid v) (snd p * cols v + fst p) 1,
               creepAge := wr (creepAge v) (snd p * cols v + fst p) 20,
               activeEdges := setAdd (activeEdges v) (snd p * cols v + fst p),
               creepCount := creepCount v + 1\<rparr>)"
    by (rule gridLe_occupy) simp_all
  with occupy(2) show ?thesis by (simp only:)
qed

lemma stable_gridLe: "stable (gridLe w)"
  unfolding stable_def spawnStable_def
proof (intro conjI allI impI)
  fix v p assume "gridLe w v"
  then show "gridLe w (hatchCell p v)" by (rule gridLe_hatchCell)
next
  fix v i assume "gridLe w v"
  then show "gridLe w (v\<lparr>creepGrid := wr (creepGrid v) i 1, creepAge := wr (creepAge v) i 1,
               creepCount := creepCount v + 1\<rparr>)"
    by (rule gridLe_occupy) simp_all
qed (erule gridLe_cong; simp)+

lemma emptyAt_gridLe:
  assumes "gridLe w v" and "emptyAt v x y d"
  shows "emptyAt w x y d"
proof -
  from assms(1) have c: "cols v = cols w" and r: "rows v = rows w"
    and z: "\<And>k. rd (creepGrid v) k = Some 0 \<Longrightarrow> rd (creepGrid w) k = Some 0"
    by (simp_all add: gridLe_def)
  from assms(2) have "inGrid v (x + fst d) (y + snd d)" "rd (creepGrid v) (nbIndex v x y d) = Some 0"
    by (simp_all add: emptyAt_def)
  then have "inGrid w (x + fst d) (y + snd d)" "rd (creepGrid w) (nbIndex w x y d) = Some 0"
    unfolding inGrid_def nbIndex_def c r by (simp_all add: z)
  then show ?thesis by (simp add: emptyAt_def)
qed

lemma visitNeighbor_flag:
  "hasEmptyNeighbor s \<Longrightarrow> hasEmptyNeighbor (visitNeighbor R cb x y d s)"
  by (cases rule: visitNeighbor_cases [of s x d y R cb]) simp_all

lemma fold_visitNeighbor_flag:
  "hasEmptyNeighbor s \<Longrightarrow> hasEmptyNeighbor (fold (visitNeighbor R cb x y) ds s)"
  by (induction ds arbitrary: s) (simp_all add: visitNeighbor_flag)

lemma visitNeighbor_noflag:
  assumes "\<not> hasEmptyNeighbor (visitNeighbor R cb x y d s)"
  shows "\<not> emptyAt (sw s) x y d"
  using assms by (cases rule: visitNeighbor_cases [of s x d y R cb]) (auto simp: emptyAt_def)

lemma fold_visitNeighbor_gridLe: "gridLe (sw s) (sw (fold (visitNeighbor R cb x y) ds s))"
  using stable_gridLe gridLe_refl by (rule fold_visitNeighbor_stable)

lemma fold_visitNeighbor_noflag:
  "\<not> hasEmptyNeighbor (fold (visitNeighbor R cb x y) ds s) \<Longrightarrow>
     \<forall>d \<in> set ds. \<not> emptyAt (sw (fold (visitNeighbor R cb x y) ds s)) x y d"
proof (induction ds arbitrary: s)
  case Nil
  show ?case by simp
next
  case (Cons d ds)
  let ?s1 = "visitNeighbor R cb x y d s"
  let ?s2 = "fold (visitNeighbor R cb x y) ds ?s1"
  from Cons.prems have n2: "\<not> hasEmptyNeighbor ?s2" by simp
  with fold_visitNeighbor_flag [of ?s1 R cb x y ds] have n1: "\<not> hasEmptyNeighbor ?s1"
    by blast
  from n1 have "\<not> emptyAt (sw s) x y d" by (rule visitNeighbor_noflag)
  moreover have "gridLe (sw s) (sw ?s2)"
    using fold_visitNeighbor_gridLe [of s R cb x y "d # ds"] by simp
  ultimately have "\<not> emptyAt (sw ?s2) x y d"
    using emptyAt_gridLe by blast
  with Cons.IH [OF n2] show ?case by simp
qed


lemma rolled_sameTerrain: "sameTerrain w (rolled R x y d w)"
  using stable_sameTerrain sameTerrain_refl by (rule rolled_stable)

lemma scanOk_edgesInv: "scanOk s \<longleftrightarrow> edgesInv (set (newEdges s)) (set (toRemove s)) (sw s)"
  by (simp only: scanOk_def edgesInv_def)

lemma scanOk_visitNeighbor:
  assumes "scanOk s"
  shows "scanOk (visitNeighbor R cb x y d s)"
proof (cases rule: visitNeighbor_cases [of s x d y R cb])
  case skip
  with assms show ?thesis by (simp only:)
next
  case stay
  from assms have "edgesInv (set (newEdges s)) (set (toRemove s)) (sw s)"
    by (simp only: scanOk_edgesInv)
  with spawnStable_edgesInv have "edgesInv (set (newEdges s)) (set (toRemove s)) (rolled R x y d (sw s))"
    by (rule rolled_spawn)
  then show ?thesis
    by (simp add: stay(3) scanOk_edgesInv)
next
  case grow
  let ?w2 = "rolled R x y d (sw s)"
  let ?n = "nbIndex (sw s) x y d"
  let ?v' = "?w2\<lparr>creepGrid := wr (creepGrid ?w2) ?n 1, creepAge := wr (creepAge ?w2) ?n 1,
                   creepCount := creepCount ?w2 + 1\<rparr>"
  from assms have e: "edgesInv (set (newEdges s)) (set (toRemove s)) (sw s)"
    by (simp only: scanOk_edgesInv)
  then have g: "gridOk (sw s)"
    by (simp add: edgesInv_def frontierInv_def)
  from spawnStable_edgesInv e have "edgesInv (set (newEdges s)) (set (toRemove s)) ?w2"
    by (rule rolled_spawn)
  then have inv: "frontierInv ?w2 (set (activeEdges ?w2) \<union> set (newEdges s)) (set (toRemove s))"
    by (simp only: edgesInv_def)
  have cr: "cols ?w2 = cols (sw s)" "rows ?w2 = rows (sw s)"
    using rolled_sameTerrain [of "sw s" R x y d] by (simp_all add: sameTerrain_def)
  have "frontierInv ?v' (insert ?n (set (activeEdges ?w2) \<union> set (newEdges s))) (set (toRemove s))"
  proof (rule frontierInv_occupy [OF inv])
    show "0 \<le> ?n"
      using inGrid_index(1) [OF g grow(1)] by (simp add: nbIndex_def)
    show "?n < cols ?w2 * rows ?w2"
      using inGrid_index(2) [OF g grow(1)] by (simp add: nbIndex_def cr)
  qed simp_all
  moreover have "set (activeEdges ?v') \<union> set (setAdd (newEdges s) ?n) =
      insert ?n (set (activeEdges ?w2) \<union> set (newEdges s))"
    by simp
  ultimately have "frontierInv ?v' (set (activeEdges ?v') \<union> set (setAdd (newEdges s) ?n)) (set (toRemove s))"
    by (simp only:)
  then show ?thesis
    by (simp add: grow(3) scanOk_def)
qed

lemma scanOk_fold_visitNeighbor:
  "scanOk s \<Longrightarrow> scanOk (fold (visitNeighbor R cb x y) ds s)"
  by (induction ds arbitrary: s) (simp_all add: scanOk_visitNeighbor)

lemma scanOk_flag [simp]: "scanOk (s\<lparr>hasEmptyNeighbor := b\<rparr>) = scanOk s"
  by (simp add: scanOk_def)

lemma scanOk_scanNeighbors: "scanOk s \<Longrightarrow> scanOk (scanNeighbors R cb idx s)"
  by (simp add: scanNeighbors_def Let_def scanOk_fold_visitNeighbor)

lemma jsRem_nonneg: "0 \<le> a \<Longrightarrow> 0 < b \<Longrightarrow> jsRem a b = a mod b"
  by (cases "a = 0") (simp_all add: jsRem_def)

lemma scanNeighbors_sameTerrain: "sameTerrain (sw s) (sw (scanNeighbors R cb idx s))"
proof -
  have "sameTerrain (sw s) (sw s)" by (rule sameTerrain_refl)
  with stable_sameTerrain show ?thesis by (rule scanNeighbors_stable)
qed

lemma scanNeighbors_noflag:
  assumes "\<not> hasEmptyNeighbor (scanNeighbors R cb idx s)" and "0 < cols (sw s)" and "0 \<le> idx"
  shows "\<not> hasUnoccupiedNeighbor (sw (scanNeighbors R cb idx s)) idx"
proof -
  let ?c = "cols (sw s)"
  let ?s0 = "s\<lparr>hasEmptyNeighbor := False\<rparr>"
  let ?s1 = "fold (visitNeighbor R cb (idx mod ?c) (idx div ?c)) neighbors ?s0"
  from assms(2,3) have eq: "scanNeighbors R cb idx s = ?s1"
    by (simp add: scanNeighbors_def Let_def jsRem_nonneg)
  from assms(1) have "\<not> hasEmptyNeighbor ?s1" unfolding eq .
  then have "\<forall>d \<in> set neighbors. \<not> emptyAt (sw ?s1) (idx mod ?c) (idx div ?c) d"
    by (rule fold_visitNeighbor_noflag)
  moreover have "cols (sw ?s1) = ?c"
    using scanNeighbors_sameTerrain [of s R cb idx] by (simp add: sameTerrain_def eq)
  ultimately have "\<not> hasUnoccupiedNeighbor (sw ?s1) idx"
    by (simp add: hasUnoccupiedNeighbor_def list_ex_iff)
  then show ?thesis unfolding eq .
qed

lemma frontierInv_remove:
  "frontierInv v E T \<Longrightarrow> \<not> hasUnoccupiedNeighbor v i \<Longrightarrow> frontierInv v E (insert i T)"
  by (simp add: frontierInv_def)

lemma ageCell_grid [simp]:
  "cols (ageCell idx w) = cols w" "rows (ageCell idx w) = rows w"
  "creepGrid (ageCell idx w) = creepGrid w" "activeEdges (ageCell idx w) = activeEdges w"
  by (simp_all add: ageCell_def split: option.split)

lemma scanOk_visitCell:
  assumes "scanOk s" and "idx \<in> set (activeEdges (sw s))"
  shows "scanOk (visitCell R cb idx s)"
proof -
  let ?s1 = "scanNeighbors R cb idx s"
  let ?w = "ageCell idx (sw ?s1)"
  from assms(1) have g: "gridOk (sw s)" and o: "occupiedAt (sw s) idx"
    using assms(2) by (simp_all add: scanOk_def frontierInv_def)
  from g have c: "0 < cols (sw s)" by (simp add: gridOk_def)
  from o have i: "0 \<le> idx" by (simp add: occupiedAt_def rd_def split: if_splits)
  from assms(1) have "scanOk ?s1" by (rule scanOk_scanNeighbors)
  then have inv1: "frontierInv (sw ?s1) (set (activeEdges (sw ?s1)) \<union> set (newEdges ?s1)) (set (toRemove ?s1))"
    by (simp only: scanOk_def)
  have cong: "frontierInv ?w E T = frontierInv (sw ?s1) E T" for E T
    by (rule frontierInv_cong) simp_all
  have inv2: "frontierInv ?w (set (activeEdges ?w) \<union> set (newEdges ?s1)) (set (toRemove ?s1))"
    using inv1 by (simp add: cong)
  show ?thesis
  proof (cases "hasEmptyNeighbor ?s1")
    case True
    then have "visitCell R cb idx s = ?s1\<lparr>sw := ?w\<rparr>"
      by (simp add: visitCell_def Let_def)
    with inv2 show ?thesis by (simp add: scanOk_def)
  next
    case False
    then have v: "visitCell R cb idx s = ?s1\<lparr>sw := ?w, toRemove := toRemove ?s1 @ [idx]\<rparr>"
      by (simp add: visitCell_def Let_def)
    from False c i have "\<not> hasUnoccupiedNeighbor (sw ?s1) idx"
      by (rule scanNeighbors_noflag)
    then have "\<not> hasUnoccupiedNeighbor ?w idx"
      using hasUnoccupiedNeighbor_cong [of ?w "sw ?s1" idx] by simp
    with inv2 have "frontierInv ?w (set (activeEdges ?w) \<union> set (newEdges ?s1))
        (insert idx (set (toRemove ?s1)))"
      by (rule frontierInv_remove)
    then show ?thesis by (simp add: v scanOk_def)
  qed
qed

lemma scanOk_scanFrom: "scanOk s \<Longrightarrow> scanOk (scanFrom R cb i s)"
proof (induction R cb i s rule: scanFrom.induct)
  case (1 R cb i s)
  show ?case
  proof (cases "i < length (activeEdges (sw s))")
    case True
    then have "activeEdges (sw s) ! i \<in> set (activeEdges (sw s))" by simp
    with "1.prems" have "scanOk (visitCell R cb (activeEdges (sw s) ! i) s)"
      by (rule scanOk_visitCell)
    with True have "scanOk (scanFrom R cb (Suc i) (visitCell R cb (activeEdges (sw s) ! i) s))"
      by (rule "1.IH")
    with True show ?thesis by (subst scanFrom.simps) simp
  next
    case False
    with "1.prems" show ?thesis by (subst scanFrom.simps) simp
  qed
qed


lemma set_fold_setAdd: "set (fold (\<lambda>idx e. setAdd e idx) xs e) = set e \<union> set xs"
  by (induction xs arbitrary: e) auto

lemma set_fold_setDelete: "set (fold (\<lambda>idx e. setDelete e idx) xs e) = set e - set xs"
  by (induction xs arbitrary: e) (auto simp: setDelete_def)

lemma frontierInv_finish:
  assumes "frontierInv v (A \<union> N) T"
  shows "frontierInv v ((A - T) \<union> N) {}"
proof -
  from assms have g: "gridOk v" and e: "\<forall>i \<in> A \<union> N. occupiedAt v i"
    and c: "\<forall>i. occupiedAt v i \<and> hasUnoccupiedNeighbor v i \<longrightarrow> i \<in> A \<union> N"
    and t: "\<forall>i \<in> T. \<not> hasUnoccupiedNeighbor v i"
    by (simp_all add: frontierInv_def)
  from e have "\<forall>i \<in> (A - T) \<union> N. occupiedAt v i" by blast
  moreover from c t have "\<forall>i. occupiedAt v i \<and> hasUnoccupiedNeighbor v i \<longrightarrow> i \<in> (A - T) \<union> N"
    by blast
  ultimately show ?thesis using g by (simp add: frontierInv_def)
qed

lemma spreadCreep_frontierOk:
  assumes "frontierOk w"
  shows "frontierOk (spreadCreep R w)"
proof (cases "isSaturated w")
  case True
  with assms show ?thesis by (simp add: spreadCreep_def)
next
  case False
  let ?init = "\<lparr>sw = w, newEdges = [], toRemove = [], hasEmptyNeighbor = False\<rparr>"
  let ?s = "scanFrom R (resourceBoost w) 0 ?init"
  let ?e = "fold (\<lambda>idx e. setAdd e idx) (newEdges ?s)
              (fold (\<lambda>idx e. setDelete e idx) (toRemove ?s) (activeEdges (sw ?s)))"
  from assms have "scanOk ?init" by (simp add: scanOk_def frontierOk_def)
  then have "scanOk ?s" by (rule scanOk_scanFrom)
  then have "frontierInv (sw ?s) (set (activeEdges (sw ?s)) \<union> set (newEdges ?s)) (set (toRemove ?s))"
    by (simp only: scanOk_def)
  then have "frontierInv (sw ?s) (set (activeEdges (sw ?s)) - set (toRemove ?s) \<union> set (newEdges ?s)) {}"
    by (rule frontierInv_finish)
  then have f: "frontierInv (sw ?s) (set ?e) {}"
    by (simp only: set_fold_setAdd set_fold_setDelete)
  have 1: "frontierOk ((sw ?s)\<lparr>activeEdges := ?e\<rparr>)"
    unfolding frontierOk_def using f
    by (simp add: frontierInv_cong [where v = "sw ?s" and v' = "(sw ?s)\<lparr>activeEdges := ?e\<rparr>"])
  have 2: "frontierOk ((sw ?s)\<lparr>activeEdges := ?e, isSaturated := True\<rparr>)"
    unfolding frontierOk_def using f
    by (simp add: frontierInv_cong [where v = "sw ?s"
          and v' = "(sw ?s)\<lparr>activeEdges := ?e, isSaturated := True\<rparr>"])
  from False 1 2 show ?thesis
    by (simp add: spreadCreep_def Let_def)
qed

lemma run_frontierOk: "frontierOk w \<Longrightarrow> frontierOk ((spreadCreep R ^^ n) w)"
  by (induction n) (simp_all add: spreadCreep_frontierOk)

lemma length_detectCliffs:
  assumes "length tt = nat (c * r)"
  shows "length (detectCliffs c r h tt) = length tt"
proof (cases "0 < length tt")
  case True
  from fold_cliffCell_nth [OF subset_refl assms True] show ?thesis
    by (simp add: detectCliffs_def)
next
  case False
  with assms have "c * r \<le> 0" by simp
  then have "c \<le> 0 \<or> r \<le> 0"
    by (simp add: mult_le_0_iff) linarith
  then have "gridCells c r = []"
    by (auto simp: gridCells_def)
  then show ?thesis by (simp add: detectCliffs_def)
qed

lemma pickCorner_index:
  assumes "0 < c" "0 < r"
  shows "0 \<le> cornerY (pickCorner c r k) * c + cornerX (pickCorner c r k)"
    and "cornerY (pickCorner c r k) * c + cornerX (pickCorner c r k) < c * r"
proof -
  have "0 \<le> cornerX (pickCorner c r k)" "cornerX (pickCorner c r k) < c"
    "0 \<le> cornerY (pickCorner c r k)" "cornerY (pickCorner c r k) < r"
    using assms by (simp_all add: pickCorner_def)
  then show "0 \<le> cornerY (pickCorner c r k) * c + cornerX (pickCorner c r k)"
    and "cornerY (pickCorner c r k) * c + cornerX (pickCorner c r k) < c * r"
    by (rule cell_index_less)+
qed

lemma find_or_default:
  assumes "Q d" and "\<And>p. P p \<Longrightarrow> Q p"
  shows "Q (case find P xs of Some p \<Rightarrow> p | None \<Rightarrow> d)"
proof (cases "find P xs")
  case None
  with assms(1) show ?thesis by simp
next
  case (Some p)
  then have "P p" by (auto simp: find_Some_iff)
  with Some assms(2) show ?thesis by simp
qed

lemma findSeed_index:
  assumes "0 < c" "0 < r" and "length tt = nat (c * r)"
  shows "0 \<le> snd (findSeed c r tt (pickCorner c r k)) * c + fst (findSeed c r tt (pickCorner c r k)) \<and>
         snd (findSeed c r tt (pickCorner c r k)) * c + fst (findSeed c r tt (pickCorner c r k)) < c * r"
  unfolding findSeed_def Let_def
proof (rule find_or_default [where Q = "\<lambda>p. 0 \<le> snd p * c + fst p \<and> snd p * c + fst p < c * r"])
  show "0 \<le> snd (cornerX (pickCorner c r k), cornerY (pickCorner c r k)) * c +
             fst (cornerX (pickCorner c r k), cornerY (pickCorner c r k)) \<and>
        snd (cornerX (pickCorner c r k), cornerY (pickCorner c r k)) * c +
             fst (cornerX (pickCorner c r k), cornerY (pickCorner c r k)) < c * r"
    using pickCorner_index [OF assms(1,2), of k] by simp
next
  fix p :: "int \<times> int"
  assume "case p of (sx, sy) \<Rightarrow> (case rd tt (sy * c + sx) of Some t \<Rightarrow> t \<le> 2 | None \<Rightarrow> False)"
  then have "rd tt (snd p * c + fst p) \<noteq> None"
    by (auto simp: case_prod_beta split: option.splits)
  then have "0 \<le> snd p * c + fst p \<and> snd p * c + fst p < int (length tt)"
    by (simp add: rd_def split: if_splits)
  with assms show "0 \<le> snd p * c + fst p \<and> snd p * c + fst p < c * r"
    by simp
qed

lemma seedOf_index:
  assumes "0 < c" "0 < r"
  shows "0 \<le> snd (seedOf R c r) * c + fst (seedOf R c r)"
    and "snd (seedOf R c r) * c + fst (seedOf R c r) < c * r"
proof -
  have "length (fst (snd (makeTerrain R c r))) = nat (c * r)"
    by (simp add: makeTerrain_types length_detectCliffs)
  from findSeed_index [OF assms this]
  show "0 \<le> snd (seedOf R c r) * c + fst (seedOf R c r)"
    and "snd (seedOf R c r) * c + fst (seedOf R c r) < c * r"
    by (simp_all add: seedOf_def Let_def)
qed

lemma initGrid_frontierOk:
  assumes "0 < gridCols width" "0 < gridCols height"
  shows "frontierOk (initGrid R width height)"
proof -
  let ?c = "gridCols width" and ?r = "gridCols height"
  let ?k = "snd (seedOf R ?c ?r) * ?c + fst (seedOf R ?c ?r)"
  let ?w = "initGrid R width height"
  from seedOf_index [OF assms, of R] have k: "0 \<le> ?k" "?k < ?c * ?r"
    by simp_all
  have g: "creepGrid ?w = wr (replicate (nat (?c * ?r)) 0) ?k 1"
    by (simp only: initGrid_fields)
  have e: "activeEdges ?w = [?k]"
    by (simp only: initGrid_fields)
  have "set (creepGrid ?w) \<subseteq> insert 1 (set (replicate (nat (?c * ?r)) 0))"
    unfolding g wr_def by (simp add: set_update_subset_insert subset_insertI)
  then have "set (creepGrid ?w) \<subseteq> {0, 1}" by auto
  then have "gridOk ?w"
    using assms by (simp add: gridOk_def initGrid_fields(1,2) g)
  moreover have "occupiedAt ?w i \<longleftrightarrow> i = ?k" for i
    unfolding occupiedAt_def g rd_wr using k by (auto simp: rd_def)
  ultimately show ?thesis
    by (simp add: frontierOk_def frontierInv_def e)
qed


lemma spreadCreep_occupied:
  assumes "frontierOk w" and "occupiedAt w i"
  shows "occupiedAt (spreadCreep R w) i"
proof -
  let ?v = "spreadCreep R w"
  have "gridLe w w" by (rule gridLe_refl)
  with stable_gridLe have le: "gridLe w ?v" by (rule spreadCreep_stable)
  from assms(1) have "frontierOk ?v" by (rule spreadCreep_frontierOk)
  then have s: "set (creepGrid ?v) \<subseteq> {0, 1}"
    by (simp add: frontierOk_def frontierInv_def gridOk_def)
  have l: "length (creepGrid ?v) = length (creepGrid w)"
    using spreadCreep_sameTerrain [of w R] by (simp add: sameTerrain_def)
  from assms(2) have i: "0 \<le> i" "i < int (length (creepGrid w))"
    by (simp_all add: occupiedAt_def rd_def split: if_splits)
  with l have "creepGrid ?v ! nat i \<in> set (creepGrid ?v)" by simp
  with s have "creepGrid ?v ! nat i = 0 \<or> creepGrid ?v ! nat i = 1" by auto
  with i l have "rd (creepGrid ?v) i = Some 0 \<or> rd (creepGrid ?v) i = Some 1"
    by (simp add: rd_def)
  moreover have "rd (creepGrid ?v) i \<noteq> Some 0"
  proof
    assume "rd (creepGrid ?v) i = Some 0"
    with le have "rd (creepGrid w) i = Some 0" by (simp add: gridLe_def)
    with assms(2) show False by (simp add: occupiedAt_def)
  qed
  ultimately show ?thesis by (simp add: occupiedAt_def)
qed

definition zeroDraws :: rand where
  "zeroDraws k = mkDraw 0"

lemma frontierOk_demoWorld: "frontierOk (demoWorld [] [])"
proof -
  have "occupiedAt (demoWorld [] []) i \<longleftrightarrow> i = 0" for i
  proof
    assume "occupiedAt (demoWorld [] []) i"
    then have "0 \<le> i" "i < 9" "[1, 0, 0, 0, 0, 0, 0, 0, 0::nat] ! nat i = 1"
      by (simp_all add: occupiedAt_def demoWorld_def rd_def split: if_splits)
    then show "i = 0"
      by (cases "nat i") (auto simp: nth_Cons split: nat.splits)
  next
    assume "i = 0"
    then show "occupiedAt (demoWorld [] []) i"
      by (simp add: occupiedAt_def demoWorld_def rd_def)
  qed
  moreover have "gridOk (demoWorld [] [])"
    by (simp add: gridOk_def demoWorld_def)
  ultimately show ?thesis
    by (simp add: frontierOk_def frontierInv_def) (simp add: demoWorld_def)
qed

lemma demoWorld_step:
  "activeEdges (spreadCreep zeroDraws (demoWorld [] [])) = [0, 1, 3, 4]"
  "creepGrid (spreadCreep zeroDraws (demoWorld [] [])) = [1, 1, 0, 1, 1, 0, 0, 0, 0]"
  "hasUnoccupiedNeighbor (spreadCreep zeroDraws (demoWorld [] [])) 1"
  "\<not> hasUnoccupiedNeighbor (spreadCreep zeroDraws (demoWorld [] [])) 0"
  "activeEdges (spreadCreep zeroDraws (spreadCreep zeroDraws (demoWorld [] []))) = [1, 3, 4, 2, 5, 6, 7, 8]"
  by code_simp+

subsection \<open>Members without a free neighbour leave the frontier\<close>

definition edgesFrom :: "world \<Rightarrow> world \<Rightarrow> bool" where
  "edgesFrom w v \<longleftrightarrow> (\<exists>zs. activeEdges v = activeEdges w @ zs)"

lemma edgesFrom_refl: "edgesFrom w w"
  by (simp add: edgesFrom_def)

lemma edgesFrom_cong: "edgesFrom w v \<Longrightarrow> activeEdges v' = activeEdges v \<Longrightarrow> edgesFrom w v'"
  by (simp add: edgesFrom_def)

lemma edgesFrom_setAdd:
  "edgesFrom w v \<Longrightarrow> activeEdges v' = setAdd (activeEdges v) j \<Longrightarrow> edgesFrom w v'"
  by (auto simp: edgesFrom_def setAdd_def)

lemma edgesFrom_hatchCell: "edgesFrom w v \<Longrightarrow> edgesFrom w (hatchCell p v)"
  by (cases rule: hatchCell_cases [of p v]) (auto elim: edgesFrom_cong edgesFrom_setAdd)

lemma spawnStable_edgesFrom: "spawnStable (edgesFrom w)"
  unfolding spawnStable_def
proof (intro conjI allI impI)
  fix v p assume "edgesFrom w v"
  then show "edgesFrom w (hatchCell p v)" by (rule edgesFrom_hatchCell)
qed (erule edgesFrom_cong; simp)+

lemma visitNeighbor_edgesFrom:
  assumes "edgesFrom w (sw s)"
  shows "edgesFrom w (sw (visitNeighbor R cb x y d s))"
proof -
  from spawnStable_edgesFrom assms have r: "edgesFrom w (rolled R x y d (sw s))"
    by (rule rolled_spawn)
  show ?thesis
  proof (cases rule: visitNeighbor_cases [of s x d y R cb])
    case skip
    with assms show ?thesis by simp
  next
    case stay
    with r show ?thesis by simp
  next
    case grow
    from r show ?thesis unfolding grow(3) by (rule edgesFrom_cong) simp
  qed
qed

lemma fold_visitNeighbor_edgesFrom:
  "edgesFrom w (sw s) \<Longrightarrow> edgesFrom w (sw (fold (visitNeighbor R cb x y) ds s))"
  by (induction ds arbitrary: s) (simp_all add: visitNeighbor_edgesFrom)

lemma visitCell_edgesFrom:
  assumes "edgesFrom w (sw s)"
  shows "edgesFrom w (sw (visitCell R cb idx s))"
proof -
  from assms have "edgesFrom w (sw (s\<lparr>hasEmptyNeighbor := False\<rparr>))" by simp
  then have "edgesFrom w (sw (fold (visitNeighbor R cb x y) ds (s\<lparr>hasEmptyNeighbor := False\<rparr>)))"
    for x y ds
    by (rule fold_visitNeighbor_edgesFrom)
  with assms have "edgesFrom w (sw (scanNeighbors R cb idx s))"
    by (simp add: scanNeighbors_def Let_def)
  then show ?thesis
    unfolding visitCell_sw by (rule edgesFrom_cong) simp
qed

lemma visitNeighbor_toRemove [simp]: "toRemove (visitNeighbor R cb x y d s) = toRemove s"
  by (cases rule: visitNeighbor_cases [of s x d y R cb]) simp_all

lemma fold_visitNeighbor_toRemove [simp]:
  "toRemove (fold (visitNeighbor R cb x y) ds s) = toRemove s"
  by (induction ds arbitrary: s) simp_all

lemma scanNeighbors_toRemove [simp]: "toRemove (scanNeighbors R cb idx s) = toRemove s"
  by (simp add: scanNeighbors_def Let_def)

lemma visitCell_toRemove: "set (toRemove s) \<subseteq> set (toRemove (visitCell R cb idx s))"
  by (auto simp: visitCell_def Let_def)

lemma scanFrom_toRemove: "set (toRemove s) \<subseteq> set (toRemove (scanFrom R cb i s))"
proof (induction R cb i s rule: scanFrom.induct)
  case (1 R cb i s)
  show ?case
  proof (cases "i < length (activeEdges (sw s))")
    case True
    from "1.IH" [OF True] visitCell_toRemove [of s R cb "activeEdges (sw s) ! i"] True
    show ?thesis by (subst scanFrom.simps) auto
  next
    case False
    then show ?thesis by (subst scanFrom.simps) simp
  qed
qed

text \<open>A cell that has no unoccupied neighbour when it is scanned is put on the removal list.\<close>

lemma visitNeighbor_enclosed:
  "\<not> emptyAt (sw s) x y d \<Longrightarrow> visitNeighbor R cb x y d s = s"
  by (cases rule: visitNeighbor_cases [of s x d y R cb]) (simp_all add: emptyAt_def)

lemma fold_visitNeighbor_enclosed:
  "\<forall>d \<in> set ds. \<not> emptyAt (sw s) x y d \<Longrightarrow> fold (visitNeighbor R cb x y) ds s = s"
  by (induction ds) (simp_all add: visitNeighbor_enclosed)

lemma visitCell_enclosed:
  assumes "\<not> hasUnoccupiedNeighbor (sw s) idx" and "0 < cols (sw s)" and "0 \<le> idx"
  shows "idx \<in> set (toRemove (visitCell R cb idx s))"
proof -
  let ?c = "cols (sw s)"
  let ?s1 = "s\<lparr>hasEmptyNeighbor := False\<rparr>"
  from assms(1) have "\<forall>d \<in> set neighbors. \<not> emptyAt (sw ?s1) (idx mod ?c) (idx div ?c) d"
    by (simp add: hasUnoccupiedNeighbor_def list_ex_iff)
  then have "fold (visitNeighbor R cb (idx mod ?c) (idx div ?c)) neighbors ?s1 = ?s1"
    by (rule fold_visitNeighbor_enclosed)
  with assms(2,3) have "scanNeighbors R cb idx s = ?s1"
    by (simp add: scanNeighbors_def Let_def jsRem_nonneg)
  then show ?thesis
    by (simp add: visitCell_def Let_def)
qed

lemma hasUnoccupiedNeighbor_gridLe:
  assumes "gridLe w v" and "hasUnoccupiedNeighbor v i"
  shows "hasUnoccupiedNeighbor w i"
proof -
  from assms(1) have c: "cols v = cols w" by (simp add: gridLe_def)
  from assms(2) obtain d where d: "d \<in> set neighbors" "emptyAt v (i mod cols w) (i div cols w) d"
    unfolding hasUnoccupiedNeighbor_def list_ex_iff c by blast
  from assms(1) d(2) have "emptyAt w (i mod cols w) (i div cols w) d" by (rule emptyAt_gridLe)
  with d(1) show ?thesis
    unfolding hasUnoccupiedNeighbor_def list_ex_iff by blast
qed

lemma visitCell_gridLe: "gridLe (sw s) (sw (visitCell R cb idx s))"
  using stable_gridLe gridLe_refl by (rule visitCell_stable)

lemma scanFrom_enclosed:
  assumes "scanOk s" and "p \<le> k" and "k < length (activeEdges (sw s))"
    and "\<not> hasUnoccupiedNeighbor (sw s) (activeEdges (sw s) ! k)"
  shows "activeEdges (sw s) ! k \<in> set (toRemove (scanFrom R cb p s))"
  using assms
proof (induction R cb p s rule: scanFrom.induct)
  case (1 R cb p s)
  let ?idx = "activeEdges (sw s) ! p"
  let ?s' = "visitCell R cb ?idx s"
  from "1.prems"(2,3) have p: "p < length (activeEdges (sw s))" by simp
  then have m: "?idx \<in> set (activeEdges (sw s))" by simp
  have u: "scanFrom R cb p s = scanFrom R cb (Suc p) ?s'"
    using p by (subst scanFrom.simps) simp
  show ?case
  proof (cases "k = p")
    case True
    from "1.prems"(1) m have "gridOk (sw s)" "occupiedAt (sw s) ?idx"
      by (simp_all add: scanOk_def frontierInv_def)
    then have "0 < cols (sw s)" "0 \<le> ?idx"
      by (simp_all add: gridOk_def occupiedAt_def rd_def split: if_splits)
    with "1.prems"(4) True have "?idx \<in> set (toRemove ?s')"
      by (intro visitCell_enclosed) simp_all
    with scanFrom_toRemove [of ?s' R cb "Suc p"] True show ?thesis
      unfolding u by auto
  next
    case False
    with "1.prems"(2) have k: "Suc p \<le> k" by simp
    from "1.prems"(1) m have ok: "scanOk ?s'" by (rule scanOk_visitCell)
    have "edgesFrom (sw s) (sw ?s')"
      using edgesFrom_refl by (rule visitCell_edgesFrom)
    then obtain zs where zs: "activeEdges (sw ?s') = activeEdges (sw s) @ zs"
      by (auto simp: edgesFrom_def)
    with "1.prems"(3) have l: "k < length (activeEdges (sw ?s'))"
      and e: "activeEdges (sw ?s') ! k = activeEdges (sw s) ! k"
      by (simp_all add: nth_append)
    have "\<not> hasUnoccupiedNeighbor (sw ?s') (activeEdges (sw s) ! k)"
      using "1.prems"(4) hasUnoccupiedNeighbor_gridLe [OF visitCell_gridLe] by blast
    then have n: "\<not> hasUnoccupiedNeighbor (sw ?s') (activeEdges (sw ?s') ! k)"
      unfolding e .
    from "1.IH" [OF p ok k l n] show ?thesis
      unfolding u e .
  qed
qed

text \<open>The cells in \<open>newEdges\<close> were unoccupied when the step began.\<close>

definition freshEdges :: "world \<Rightarrow> scan \<Rightarrow> bool" where
  "freshEdges w s \<longleftrightarrow>
     gridLe w (sw s) \<and> (\<forall>j \<in> set (newEdges s). rd (creepGrid w) j = Some 0)"

lemma freshEdges_visitNeighbor:
  assumes "freshEdges w s"
  shows "freshEdges w (visitNeighbor R cb x y d s)"
proof -
  from assms have g: "gridLe w (sw s)" and n: "\<forall>j \<in> set (newEdges s). rd (creepGrid w) j = Some 0"
    by (simp_all add: freshEdges_def)
  from stable_gridLe g have g': "gridLe w (sw (visitNeighbor R cb x y d s))"
    by (rule visitNeighbor_stable)
  show ?thesis
  proof (cases rule: visitNeighbor_cases [of s x d y R cb])
    case skip
    with assms show ?thesis by simp
  next
    case stay
    with g' n show ?thesis by (simp add: freshEdges_def)
  next
    case grow
    from g grow(2) have "rd (creepGrid w) (nbIndex (sw s) x y d) = Some 0"
      by (simp add: gridLe_def)
    with n have "\<forall>j \<in> set (newEdges (visitNeighbor R cb x y d s)). rd (creepGrid w) j = Some 0"
      by (simp add: grow(3))
    with g' show ?thesis by (simp only: freshEdges_def simp_thms)
  qed
qed

lemma freshEdges_fold_visitNeighbor:
  "freshEdges w s \<Longrightarrow> freshEdges w (fold (visitNeighbor R cb x y) ds s)"
  by (induction ds arbitrary: s) (simp_all add: freshEdges_visitNeighbor)

lemma freshEdges_visitCell:
  assumes "freshEdges w s"
  shows "freshEdges w (visitCell R cb idx s)"
proof -
  from assms have "freshEdges w (s\<lparr>hasEmptyNeighbor := False\<rparr>)"
    by (simp add: freshEdges_def)
  then have "freshEdges w (fold (visitNeighbor R cb x y) ds (s\<lparr>hasEmptyNeighbor := False\<rparr>))"
    for x y ds
    by (rule freshEdges_fold_visitNeighbor)
  with \<open>freshEdges w (s\<lparr>hasEmptyNeighbor := False\<rparr>)\<close>
  have "freshEdges w (scanNeighbors R cb idx s)"
    by (simp add: scanNeighbors_def Let_def)
  then have "gridLe w (sw (scanNeighbors R cb idx s))"
    and n: "\<forall>j \<in> set (newEdges (scanNeighbors R cb idx s)). rd (creepGrid w) j = Some 0"
    by (simp_all add: freshEdges_def)
  then have "gridLe w (ageCell idx (sw (scanNeighbors R cb idx s)))"
    by (elim gridLe_cong) simp_all
  with n show ?thesis
    by (simp add: freshEdges_def visitCell_def Let_def)
qed

lemma freshEdges_scanFrom: "freshEdges w s \<Longrightarrow> freshEdges w (scanFrom R cb i s)"
proof (induction R cb i s rule: scanFrom.induct)
  case (1 R cb i s)
  show ?case
  proof (cases "i < length (activeEdges (sw s))")
    case True
    from "1.prems" have "freshEdges w (visitCell R cb (activeEdges (sw s) ! i) s)"
      by (rule freshEdges_visitCell)
    with True have "freshEdges w (scanFrom R cb (Suc i) (visitCell R cb (activeEdges (sw s) ! i) s))"
      by (rule "1.IH")
    with True show ?thesis by (subst scanFrom.simps) simp
  next
    case False
    with "1.prems" show ?thesis by (subst scanFrom.simps) simp
  qed
qed

lemma spreadCreep_removes:
  assumes "frontierOk w" and "\<not> isSaturated w" and "i \<in> set (activeEdges w)"
    and "\<not> hasUnoccupiedNeighbor w i"
  shows "i \<notin> set (activeEdges (spreadCreep R w))"
proof -
  let ?init = "\<lparr>sw = w, newEdges = [], toRemove = [], hasEmptyNeighbor = False\<rparr>"
  let ?s = "scanFrom R (resourceBoost w) 0 ?init"
  from assms(3) obtain k where k: "k < length (activeEdges w)" "activeEdges w ! k = i"
    by (auto simp: in_set_conv_nth)
  from assms(1) have "scanOk ?init" by (simp add: scanOk_def frontierOk_def)
  from scanFrom_enclosed [OF this, of 0 k R "resourceBoost w"] k assms(4)
  have r: "i \<in> set (toRemove ?s)" by simp
  have "freshEdges w ?init" by (simp add: freshEdges_def gridLe_refl)
  then have "freshEdges w ?s" by (rule freshEdges_scanFrom)
  moreover from assms(1,3) have "rd (creepGrid w) i = Some 1"
    by (simp add: frontierOk_def frontierInv_def occupiedAt_def)
  ultimately have n: "i \<notin> set (newEdges ?s)"
    by (auto simp: freshEdges_def)
  from assms(2) r n show ?thesis
    by (simp add: spreadCreep_def Let_def set_fold_setAdd set_fold_setDelete)
qed


lemma demoWorld_unsaturated: "\<not> isSaturated (spreadCreep zeroDraws (demoWorld [] []))"
  by code_simp

subsection \<open>The scan does not read resourceBoost\<close>

text \<open>
  \<open>reboost b s\<close> is the scan state \<open>s\<close> with the variable \<open>resourceBoost\<close> set to
  \<open>b\<close>. No function of the step reads that variable except to add to it, so each of
  them commutes with \<open>reboost\<close> up to the value of the variable.
\<close>

lemma boost_out:
  "w\<lparr>resourceBoost := b, creepGrid := g\<rparr> = w\<lparr>creepGrid := g, resourceBoost := b\<rparr>"
  "w\<lparr>resourceBoost := b, creepAge := a\<rparr> = w\<lparr>creepAge := a, resourceBoost := b\<rparr>"
  "w\<lparr>resourceBoost := b, creepCount := c\<rparr> = w\<lparr>creepCount := c, resourceBoost := b\<rparr>"
  "w\<lparr>resourceBoost := b, activeEdges := e\<rparr> = w\<lparr>activeEdges := e, resourceBoost := b\<rparr>"
  "w\<lparr>resourceBoost := b, buildings := bs\<rparr> = w\<lparr>buildings := bs, resourceBoost := b\<rparr>"
  "w\<lparr>resourceBoost := b, minerals := ms\<rparr> = w\<lparr>minerals := ms, resourceBoost := b\<rparr>"
  "w\<lparr>resourceBoost := b, vespene := vs\<rparr> = w\<lparr>vespene := vs, resourceBoost := b\<rparr>"
  "w\<lparr>resourceBoost := b, mineralsGathered := mg\<rparr> = w\<lparr>mineralsGathered := mg, resourceBoost := b\<rparr>"
  "w\<lparr>resourceBoost := b, vespeneGathered := vg\<rparr> = w\<lparr>vespeneGathered := vg, resourceBoost := b\<rparr>"
  "w\<lparr>resourceBoost := b, drawn := n\<rparr> = w\<lparr>drawn := n, resourceBoost := b\<rparr>"
  by simp_all

lemma hatchCell_reboost:
  "hatchCell p (w\<lparr>resourceBoost := b\<rparr>) = (hatchCell p w)\<lparr>resourceBoost := b\<rparr>"
  by (simp add: hatchCell_def Let_def inGrid_def walkable_def creepAt_def boost_out split: option.split)

lemma fold_hatchCell_reboost:
  "fold hatchCell ps (w\<lparr>resourceBoost := b\<rparr>) = (fold hatchCell ps w)\<lparr>resourceBoost := b\<rparr>"
  by (induction ps arbitrary: w) (simp_all add: hatchCell_reboost)

lemma placeHatchery_reboost:
  "placeHatchery c (w\<lparr>resourceBoost := b\<rparr>) = (placeHatchery c w)\<lparr>resourceBoost := b\<rparr>"
  by (simp add: placeHatchery_def Let_def boost_out fold_hatchCell_reboost)

lemma candidates_reboost:
  "candidates (w\<lparr>resourceBoost := b\<rparr>) x y = candidates w x y"
  by (simp add: candidates_def inGrid_def walkable_def creepAt_def)

lemma maybeSpawn_reboost:
  "maybeSpawnHatcheryNear R x y (w\<lparr>resourceBoost := b\<rparr>) =
     (maybeSpawnHatcheryNear R x y w)\<lparr>resourceBoost := b\<rparr>"
  by (simp add: maybeSpawnHatcheryNear_def Let_def boost_out candidates_reboost placeHatchery_reboost)

lemma claimMineral_reboost:
  "claimMineral R k (w\<lparr>resourceBoost := b\<rparr>) =
     (claimMineral R k w)\<lparr>resourceBoost := min 3.0 (b + 0.5)\<rparr>"
  by (simp add: claimMineral_def Let_def boost_out maybeSpawn_reboost)

lemma claimVespene_reboost:
  "claimVespene R k (w\<lparr>resourceBoost := b\<rparr>) =
     (claimVespene R k w)\<lparr>resourceBoost := min 3.0 (b + 1.0)\<rparr>"
  by (simp add: claimVespene_def Let_def boost_out maybeSpawn_reboost)


definition reboost :: "real \<Rightarrow> scan \<Rightarrow> scan" where
  "reboost b s = s\<lparr>sw := (sw s)\<lparr>resourceBoost := b\<rparr>\<rparr>"

lemma reboost_fields [simp]:
  "sw (reboost b s) = (sw s)\<lparr>resourceBoost := b\<rparr>"
  "newEdges (reboost b s) = newEdges s" "toRemove (reboost b s) = toRemove s"
  "hasEmptyNeighbor (reboost b s) = hasEmptyNeighbor s"
  "reboost c (reboost b s) = reboost c s"
  by (simp_all add: reboost_def)

lemma sw_out:
  "s\<lparr>sw := v, newEdges := n\<rparr> = s\<lparr>newEdges := n, sw := v\<rparr>"
  "s\<lparr>sw := v, toRemove := t\<rparr> = s\<lparr>toRemove := t, sw := v\<rparr>"
  "s\<lparr>sw := v, hasEmptyNeighbor := h\<rparr> = s\<lparr>hasEmptyNeighbor := h, sw := v\<rparr>"
  by simp_all

lemma checkResource_reboost:
  "\<exists>b'. checkResource R n x y (w\<lparr>resourceBoost := b\<rparr>) =
     ((fst (checkResource R n x y w))\<lparr>resourceBoost := b'\<rparr>, snd (checkResource R n x y w))"
proof (cases "firstInRange 25 x y (minerals w)")
  case (Some k)
  then show ?thesis
    by (intro exI [of _ "min 3.0 (b + 0.5)"]) (simp add: checkResource_def claimMineral_reboost)
next
  case None
  note m = None
  show ?thesis
  proof (cases "firstInRange 36 x y (vespene w)")
    case (Some k)
    with m show ?thesis
      by (intro exI [of _ "min 3.0 (b + 1.0)"]) (simp add: checkResource_def claimVespene_reboost)
  next
    case None
    with m show ?thesis
      by (intro exI [of _ b]) (simp add: checkResource_def)
  qed
qed

lemma spreadChance_reboost:
  "spreadChance B (w\<lparr>resourceBoost := b\<rparr>) (w1\<lparr>resourceBoost := b1\<rparr>) n dx dy res =
     spreadChance B w w1 n dx dy res"
  by (simp add: spreadChance_def typeModAt_def noiseModAt_def Let_def split: option.split)

lemma visitNeighbor_reboost:
  "\<exists>b'. visitNeighbor R B x y d (reboost b s) = reboost b' (visitNeighbor R B x y d s)"
proof (cases "inGrid (sw s) (x + fst d) (y + snd d) \<and>
    rd (creepGrid (sw s)) ((y + snd d) * cols (sw s) + (x + fst d)) = Some 0")
  case False
  then have "visitNeighbor R B x y d (reboost b s) = reboost b s"
    "visitNeighbor R B x y d s = s"
    by (auto simp: visitNeighbor_def Let_def inGrid_def)
  then show ?thesis by auto
next
  case True
  let ?n = "(y + snd d) * cols (sw s) + (x + fst d)"
  obtain b1 where c: "checkResource R ?n (x + fst d) (y + snd d) ((sw s)\<lparr>resourceBoost := b\<rparr>) =
     ((fst (checkResource R ?n (x + fst d) (y + snd d) (sw s)))\<lparr>resourceBoost := b1\<rparr>,
      snd (checkResource R ?n (x + fst d) (y + snd d) (sw s)))"
    using checkResource_reboost by blast
  from True have "visitNeighbor R B x y d (reboost b s) = reboost b1 (visitNeighbor R B x y d s)"
    by (simp add: visitNeighbor_def Let_def inGrid_def c spreadChance_reboost reboost_def
        boost_out sw_out cong: option.case_cong)
  then show ?thesis ..
qed


lemma fold_visitNeighbor_reboost:
  "\<exists>b'. fold (visitNeighbor R B x y) ds (reboost b s) =
          reboost b' (fold (visitNeighbor R B x y) ds s)"
proof (induction ds arbitrary: b s)
  case Nil
  show ?case by auto
next
  case (Cons d ds)
  obtain b1 where "visitNeighbor R B x y d (reboost b s) = reboost b1 (visitNeighbor R B x y d s)"
    using visitNeighbor_reboost by blast
  with Cons.IH [of b1 "visitNeighbor R B x y d s"] show ?case by simp
qed

lemma ageCell_reboost:
  "ageCell idx (w\<lparr>resourceBoost := b\<rparr>) = (ageCell idx w)\<lparr>resourceBoost := b\<rparr>"
  by (simp add: ageCell_def boost_out split: option.split)

lemma visitCell_reboost:
  "\<exists>b'. visitCell R B idx (reboost b s) = reboost b' (visitCell R B idx s)"
proof -
  let ?init = "s\<lparr>hasEmptyNeighbor := False\<rparr>"
  have r: "(reboost b s)\<lparr>hasEmptyNeighbor := False\<rparr> = reboost b ?init"
    by (simp add: reboost_def)
  obtain b1 where "scanNeighbors R B idx (reboost b s) = reboost b1 (scanNeighbors R B idx s)"
  proof (cases "cols (sw s) = 0")
    case True
    then have "scanNeighbors R B idx (reboost b s) = reboost b (scanNeighbors R B idx s)"
      by (simp add: scanNeighbors_def Let_def r)
    then show ?thesis by (rule that)
  next
    case False
    obtain b1 where
      "fold (visitNeighbor R B (jsRem idx (cols (sw s))) (idx div cols (sw s))) neighbors (reboost b ?init) =
       reboost b1 (fold (visitNeighbor R B (jsRem idx (cols (sw s))) (idx div cols (sw s))) neighbors ?init)"
      using fold_visitNeighbor_reboost by blast
    with False have "scanNeighbors R B idx (reboost b s) = reboost b1 (scanNeighbors R B idx s)"
      by (simp add: scanNeighbors_def Let_def r)
    then show ?thesis by (rule that)
  qed
  then have "visitCell R B idx (reboost b s) = reboost b1 (visitCell R B idx s)"
    by (simp add: visitCell_def Let_def ageCell_reboost reboost_def sw_out)
  then show ?thesis ..
qed

lemma scanFrom_reboost:
  "\<exists>b'. scanFrom R B i (reboost b s) = reboost b' (scanFrom R B i s)"
proof (induction R B i s arbitrary: b rule: scanFrom.induct)
  case (1 R B i s)
  show ?case
  proof (cases "i < length (activeEdges (sw s))")
    case True
    let ?idx = "activeEdges (sw s) ! i"
    obtain b1 where v: "visitCell R B ?idx (reboost b s) = reboost b1 (visitCell R B ?idx s)"
      using visitCell_reboost by blast
    from "1.IH" [OF True, of b1] obtain b2 where
      "scanFrom R B (Suc i) (reboost b1 (visitCell R B ?idx s)) =
       reboost b2 (scanFrom R B (Suc i) (visitCell R B ?idx s))"
      by blast
    with True v have "scanFrom R B i (reboost b s) = reboost b2 (scanFrom R B i s)"
      by (subst (1 2) scanFrom.simps) simp
    then show ?thesis ..
  next
    case False
    then have "scanFrom R B i (reboost b s) = reboost b (scanFrom R B i s)"
      by (subst (1 2) scanFrom.simps) simp
    then show ?thesis ..
  qed
qed

lemma scanFrom_ignores_boost:
  "reboost c (scanFrom R B i (reboost b s)) = reboost c (scanFrom R B i s)"
proof -
  obtain b' where "scanFrom R B i (reboost b s) = reboost b' (scanFrom R B i s)"
    using scanFrom_reboost by blast
  then show ?thesis by simp
qed


text \<open>The part of the loop body of \<open>spreadCreep\<close> after the loop over the neighbours.\<close>

definition finishCell :: "int \<Rightarrow> scan \<Rightarrow> scan" where
  "finishCell idx s1 =
     (let s2 = s1\<lparr>sw := ageCell idx (sw s1)\<rparr>
      in if \<not> hasEmptyNeighbor s2 then s2\<lparr>toRemove := toRemove s2 @ [idx]\<rparr> else s2)"

definition midDraws :: rand where
  "midDraws k = mkDraw 0.005"

definition lateDraws :: rand where
  "lateDraws k =
     mkDraw (if k = 2 then 0.5 else if k = 3 \<or> k = 4 then 0 else if k < 2 then 0.9 else 0.005)"

definition afterFirst :: scan where
  "afterFirst = visitNeighbor midDraws 1 0 0 (1, 0) (startScan mineralWorld)"

lemma afterFirst_reads:
  "inGrid (sw afterFirst) 0 1" "rd (creepGrid (sw afterFirst)) 3 = Some 0"
  "rd (terrainHeight (sw afterFirst)) 3 = Some 0.4" "rd (terrainType (sw afterFirst)) 3 = Some 1"
  "rd (noiseTexture1 (sw afterFirst)) 3 = Some 0.5" "cols (sw afterFirst) = 3"
  "dirX (startCorner (sw afterFirst)) = 1" "dirY (startCorner (sw afterFirst)) = 1"
  "drawn (sw afterFirst) = 1" "resourceBoost (sw afterFirst) = 1.5"
  "rd (creepGrid (sw afterFirst)) 1 = Some 1"
  "checkResource midDraws 3 0 1 (sw afterFirst) = (sw afterFirst, None)"
  by code_simp+

lemma midDraws_step:
  "creepGrid (spreadCreep midDraws mineralWorld) = [1, 1, 0, 0, 1, 0, 0, 0, 0]"
  "resourceBoost (spreadCreep midDraws mineralWorld) = 1.5"
  by code_simp+

lemma lateDraws_step:
  "scanned lateDraws bugWorld = [0, 1, 3, 4]"
  "creepGrid (spreadCreep lateDraws bugWorld) = [1, 1, 0, 1, 1, 1, 0, 1, 1]"
  "resourceBoost (spreadCreep lateDraws bugWorld) = 3"
  by code_simp+

section \<open>The claims of the specification\<close>

text \<open>
  Claim C7. \<open>resourceBoost\<close> is 1 when the world has been created; after any number
  of steps from there it lies between 1 and 3, and a further step does not lower it. A
  resource check that discovers a mineral deposit adds 0.5, one that discovers a vespene
  deposit adds 1, both capped at 3, and a check that discovers nothing leaves it alone.
\<close>

theorem resourceBoost_range:
  "resourceBoost (initGrid R width height) = 1 \<and>
   1 \<le> resourceBoost ((spreadCreep R ^^ n) (initGrid R width height)) \<and>
   resourceBoost ((spreadCreep R ^^ n) (initGrid R width height)) \<le> 3 \<and>
   resourceBoost ((spreadCreep R ^^ n) (initGrid R width height))
     \<le> resourceBoost ((spreadCreep R ^^ Suc n) (initGrid R width height)) \<and>
   resourceBoost (fst (checkResource R idx x y w)) =
     (case snd (checkResource R idx x y w) of
        None \<Rightarrow> resourceBoost w
      | Some d \<Rightarrow> (case resType d of
                    mineral \<Rightarrow> min 3 (resourceBoost w + 0.5)
                  | gas \<Rightarrow> min 3 (resourceBoost w + 1)))"
proof -
  have "resourceBoost (fst (checkResource R idx x y w)) =
     (case snd (checkResource R idx x y w) of
        None \<Rightarrow> resourceBoost w
      | Some d \<Rightarrow> (case resType d of
                    mineral \<Rightarrow> min 3 (resourceBoost w + 0.5)
                  | gas \<Rightarrow> min 3 (resourceBoost w + 1)))"
    by (cases rule: checkResource_cases [of x y w R idx]) simp_all
  moreover have "resourceBoost ((spreadCreep R ^^ n) (initGrid R width height))
     \<le> resourceBoost ((spreadCreep R ^^ Suc n) (initGrid R width height))"
    using spreadCreep_boost [of "(spreadCreep R ^^ n) (initGrid R width height)" R]
      run_boost [where R = R and n = n and width = width and height = height] by simp
  ultimately show ?thesis
    using run_boost [where R = R and n = n and width = width and height = height] initGrid_boost [where R = R and width = width and height = height] by blast
qed

text \<open>
  Claim C8. The gathered-mineral and gathered-vespene counters are never negative, after
  any number of steps from a freshly generated world. \<open>maybeSpawnHatcheryNear\<close>
  deducts 2 minerals and 1 vespene, and adds one building, exactly when both counters
  reach these costs, the random draw is not above 0.55 and there is a candidate; in every
  other case it changes neither the counters nor the buildings. The candidates are the cells
  within distance 4 on both axes of the discovery point that are in the grid, carry creep
  and are neither cliff nor water.
\<close>

theorem gathered_never_negative:
  "0 \<le> mineralsGathered ((spreadCreep R ^^ n) (initGrid R width height)) \<and>
   0 \<le> vespeneGathered ((spreadCreep R ^^ n) (initGrid R width height)) \<and>
   (mineralsGathered (maybeSpawnHatcheryNear R tx ty w), vespeneGathered (maybeSpawnHatcheryNear R tx ty w),
    length (buildings (maybeSpawnHatcheryNear R tx ty w))) =
     (if 2 \<le> mineralsGathered w \<and> 1 \<le> vespeneGathered w \<and>
         \<not> Rep_draw (R (drawn w)) > 0.55 \<and> candidates w tx ty \<noteq> []
      then (mineralsGathered w - 2, vespeneGathered w - 1, length (buildings w) + 1)
      else (mineralsGathered w, vespeneGathered w, length (buildings w))) \<and>
   set (candidates w tx ty) =
     {(x, y). \<bar>x - tx\<bar> \<le> 4 \<and> \<bar>y - ty\<bar> \<le> 4 \<and> inGrid w x y \<and>
        walkable w (y * cols w + x) \<and> creepAt w (y * cols w + x)}"
proof -
  have "(mineralsGathered (maybeSpawnHatcheryNear R tx ty w), vespeneGathered (maybeSpawnHatcheryNear R tx ty w),
    length (buildings (maybeSpawnHatcheryNear R tx ty w))) =
     (if 2 \<le> mineralsGathered w \<and> 1 \<le> vespeneGathered w \<and>
         \<not> Rep_draw (R (drawn w)) > 0.55 \<and> candidates w tx ty \<noteq> []
      then (mineralsGathered w - 2, vespeneGathered w - 1, length (buildings w) + 1)
      else (mineralsGathered w, vespeneGathered w, length (buildings w)))"
  proof (cases rule: maybeSpawn_cases [of w R tx ty])
    case gate
    then show ?thesis
      by (auto simp: HATCHERY_MINERAL_COST_def HATCHERY_VESPENE_COST_def)
  next
    case flip
    then show ?thesis
      by (auto simp: HATCHERY_SPAWN_CHANCE_def)
  next
    case (place c)
    then have "candidates w tx ty \<noteq> []" by auto
    with place show ?thesis
      by (simp add: placeHatchery_spend HATCHERY_MINERAL_COST_def HATCHERY_VESPENE_COST_def
          HATCHERY_SPAWN_CHANCE_def)
  qed
  with run_gatheredOk [where R = R and n = n and width = width and height = height]
    set_candidates [of w tx ty]
  show ?thesis unfolding gatheredOk_def by blast
qed

text \<open>
  Claim C6. A resource check never touches a deposit that is already depleted, and it
  depletes at most one deposit. When no undepleted deposit is within reach (squared
  distance below 25 for minerals, below 36 for vespene) the check changes nothing at all:
  no counter, no \<open>resourceBoost\<close>, no building, no call of the structure spawner. When
  an undepleted mineral deposit is within reach, the first one in the list is depleted and
  no vespene deposit is; a vespene deposit is depleted only when no mineral deposit is
  within reach, and then it is the first one in the list.
\<close>

theorem discovery_at_most_once:
  fixes R idx x y w
  defines "w' \<equiv> fst (checkResource R idx x y w)"
    and "res \<equiv> snd (checkResource R idx x y w)"
  shows
  "length (minerals w') = length (minerals w) \<and> length (vespene w') = length (vespene w) \<and>
   (\<forall>j < length (minerals w). depleted (minerals w ! j) \<longrightarrow> minerals w' ! j = minerals w ! j) \<and>
   (\<forall>j < length (vespene w). depleted (vespene w ! j) \<longrightarrow> vespene w' ! j = vespene w ! j) \<and>
   undepleted (minerals w') + undepleted (vespene w') + (if res = None then 0 else 1) =
     undepleted (minerals w) + undepleted (vespene w) \<and>
   ((\<forall>d \<in> set (minerals w). \<not> inReach 25 x y d) \<and> (\<forall>d \<in> set (vespene w). \<not> inReach 36 x y d)
      \<longrightarrow> checkResource R idx x y w = (w, None)) \<and>
   ((\<exists>d \<in> set (minerals w). inReach 25 x y d) \<longrightarrow>
      map_option resType res = Some mineral \<and> vespene w' = vespene w \<and>
      (\<exists>k < length (minerals w). inReach 25 x y (minerals w ! k) \<and>
         (\<forall>j<k. \<not> inReach 25 x y (minerals w ! j)) \<and>
         minerals w' = (minerals w)[k := (minerals w ! k)\<lparr>depleted := True\<rparr>])) \<and>
   ((\<forall>d \<in> set (minerals w). \<not> inReach 25 x y d) \<and> (\<exists>d \<in> set (vespene w). inReach 36 x y d) \<longrightarrow>
      map_option resType res = Some gas \<and> minerals w' = minerals w \<and>
      (\<exists>k < length (vespene w). inReach 36 x y (vespene w ! k) \<and>
         (\<forall>j<k. \<not> inReach 36 x y (vespene w ! j)) \<and>
         vespene w' = (vespene w)[k := (vespene w ! k)\<lparr>depleted := True\<rparr>]))"
proof (cases rule: checkResource_cases [of x y w R idx])
  case none
  then show ?thesis
    by (simp add: w'_def res_def firstInRange_None_iff)
next
  case (mineral k)
  from mineral(1) have k: "k < length (minerals w)" "inReach 25 x y (minerals w ! k)"
    "\<forall>j<k. \<not> inReach 25 x y (minerals w ! j)"
    by (simp_all add: firstInRange_Some_iff)
  then have ex: "\<exists>d \<in> set (minerals w). inReach 25 x y d"
    by (metis nth_mem)
  have "\<forall>j < length (minerals w). depleted (minerals w ! j) \<longrightarrow>
          (minerals w)[k := (minerals w ! k)\<lparr>depleted := True\<rparr>] ! j = minerals w ! j"
    using mineral(3) by (metis nth_list_update_neq)
  moreover have "undepleted ((minerals w)[k := (minerals w ! k)\<lparr>depleted := True\<rparr>]) + 1 =
      undepleted (minerals w)"
    using undepleted_deplete [OF mineral(2,3)] by simp
  ultimately show ?thesis
    using k ex mineral(4) by (auto simp: w'_def res_def)
next
  case (gas k)
  from gas(2) have k: "k < length (vespene w)" "inReach 36 x y (vespene w ! k)"
    "\<forall>j<k. \<not> inReach 36 x y (vespene w ! j)"
    by (simp_all add: firstInRange_Some_iff)
  then have ex: "\<exists>d \<in> set (vespene w). inReach 36 x y d"
    by (metis nth_mem)
  from gas(1) have nm: "\<forall>d \<in> set (minerals w). \<not> inReach 25 x y d"
    by (simp add: firstInRange_None_iff)
  have "\<forall>j < length (vespene w). depleted (vespene w ! j) \<longrightarrow>
          (vespene w)[k := (vespene w ! k)\<lparr>depleted := True\<rparr>] ! j = vespene w ! j"
    using gas(4) by (metis nth_list_update_neq)
  moreover have "undepleted ((vespene w)[k := (vespene w ! k)\<lparr>depleted := True\<rparr>]) + 1 =
      undepleted (vespene w)"
    using undepleted_deplete [OF gas(3,4)] by simp
  ultimately show ?thesis
    using k ex nm gas(5) by (auto simp: w'_def res_def)
qed

theorem discovery_at_most_once_witness:
  "inReach 25 1 1 (dep 2 1 False) \<and>
   minerals (fst (checkResource (\<lambda>_. mkDraw 0) 4 1 1 (demoWorld [dep 2 2 True, dep 2 1 False] [dep 1 2 False])))
     = [dep 2 2 True, dep 2 1 True] \<and>
   vespene (fst (checkResource (\<lambda>_. mkDraw 0) 4 1 1 (demoWorld [dep 2 2 True, dep 2 1 False] [dep 1 2 False])))
     = [dep 1 2 False] \<and>
   \<not> inReach 25 1 1 (dep 2 2 True) \<and> \<not> inReach 25 1 1 (dep 2 1 True) \<and>
   inReach 36 1 1 (dep 1 2 False) \<and>
   vespene (fst (checkResource (\<lambda>_. mkDraw 0) 4 1 1 (demoWorld [dep 2 2 True, dep 2 1 True] [dep 1 2 False])))
     = [dep 1 2 True] \<and>
   \<not> inReach 36 1 1 (dep 1 2 True) \<and>
   checkResource (\<lambda>_. mkDraw 0) 4 1 1 (demoWorld [dep 2 2 True, dep 2 1 True] [dep 1 2 True])
     = (demoWorld [dep 2 2 True, dep 2 1 True] [dep 1 2 True], None)"
  using discovery_at_most_once [where w = "demoWorld [dep 2 2 True, dep 2 1 False] [dep 1 2 False]" and R = "\<lambda>_. mkDraw 0" and idx = 4 and x = 1 and y = 1]
    discovery_at_most_once [where w = "demoWorld [dep 2 2 True, dep 2 1 True] [dep 1 2 False]" and R = "\<lambda>_. mkDraw 0" and idx = 4 and x = 1 and y = 1]
    discovery_at_most_once [where w = "demoWorld [dep 2 2 True, dep 2 1 True] [dep 1 2 True]" and R = "\<lambda>_. mkDraw 0" and idx = 4 and x = 1 and y = 1]
  by (simp add: demoWorld_def dep_def inReach_def All_less_Suc2 Ex_less_Suc2)

text \<open>
  Claim C4. In every world reached by steps from a generated one, the counter
  \<open>creepCount\<close> is at least the number of occupied cells and \<open>totalVisibleCells\<close> is
  the number of cells (\<open>counted\<close>). In such a world, when at the end of a step at
  least 0.98 of the cells are occupied, the step has set the saturation flag. Once the
  flag is set, any number of further steps leaves the whole world as it is: occupancy,
  age, frontier, deposits, gathered counters, \<open>resourceBoost\<close> and buildings.
\<close>

theorem saturation:
  "counted ((spreadCreep R ^^ n) (initGrid R width height)) \<and>
   (counted w \<and> real (occupied (spreadCreep R w)) \<ge> 0.98 * real (length (creepGrid (spreadCreep R w)))
      \<longrightarrow> isSaturated (spreadCreep R w)) \<and>
   (isSaturated w \<longrightarrow> (spreadCreep R ^^ m) w = w)"
proof (intro conjI impI)
  show "counted ((spreadCreep R ^^ n) (initGrid R width height))"
    by (rule run_counted)
next
  let ?w = "spreadCreep R w"
  assume a: "counted w \<and> real (occupied ?w) \<ge> 0.98 * real (length (creepGrid ?w))"
  then have "counted w" ..
  with stable_counted have c: "counted ?w"
    by (rule spreadCreep_stable)
  then have "int (occupied ?w) \<le> creepCount ?w"
    and t: "totalVisibleCells ?w = int (length (creepGrid ?w))"
    unfolding counted_def by blast+
  then have "real_of_int (int (occupied ?w)) \<le> real_of_int (creepCount ?w)"
    by (simp only: of_int_le_iff)
  then have "real (occupied ?w) \<le> real_of_int (creepCount ?w)"
    by simp
  moreover from a have "0.98 * real (length (creepGrid ?w)) \<le> real (occupied ?w)" ..
  ultimately have "0.98 * real (length (creepGrid ?w)) \<le> real_of_int (creepCount ?w)"
    by (rule order_trans [rotated])
  then have "real_of_int (creepCount ?w) \<ge> real_of_int (totalVisibleCells ?w) * 0.98"
    by (simp add: t mult.commute)
  then show "isSaturated ?w"
    by (rule spreadCreep_saturates)
next
  assume s: "isSaturated w"
  show "(spreadCreep R ^^ m) w = w"
    by (induction m) (simp_all add: spreadCreep_saturated [OF s])
qed

theorem saturation_witness:
  "counted tinyWorld \<and>
   real (occupied (spreadCreep (\<lambda>_. mkDraw 0) tinyWorld))
     \<ge> 0.98 * real (length (creepGrid (spreadCreep (\<lambda>_. mkDraw 0) tinyWorld))) \<and>
   isSaturated (spreadCreep (\<lambda>_. mkDraw 0) tinyWorld) \<and>
   (spreadCreep (\<lambda>_. mkDraw 0) ^^ 2) (spreadCreep (\<lambda>_. mkDraw 0) tinyWorld) =
     spreadCreep (\<lambda>_. mkDraw 0) tinyWorld"
  using saturation [where w = tinyWorld and R = "\<lambda>_. mkDraw 0"]
    saturation [where w = "spreadCreep (\<lambda>_. mkDraw 0) tinyWorld" and R = "\<lambda>_. mkDraw 0" and m = 2]
  by (simp add: tinyWorld_step counted_def occupied_def) (simp add: tinyWorld_def)

text \<open>
  Claim C2 (not met by the code). The step should scan exactly the cells that are in the
  frontier when it begins. In \<open>bugWorld\<close> the frontier is the single cell 0; the third
  neighbour check of that cell discovers the vespene deposit, the hatchery placed for it
  adds the cells 1, 3 and 4 to \<open>activeEdges\<close> directly, and the running loop scans
  them in the same step: their ages are 20.2, 20.2 and 1.2 after the step, 0.2 more than
  the values the hatchery and the growth roll gave them.
\<close>

theorem spawned_cells_scanned:
  "activeEdges bugWorld = [0] \<and>
   scanned bugDraws bugWorld = [0, 1, 3, 4] \<and>
   creepAge (spreadCreep bugDraws bugWorld) = [50.2, 20.2, 0, 20.2, 1.2, 0, 0, 0, 0]"
proof -
  have "activeEdges bugWorld = [0]"
    by (simp add: bugWorld_def demoWorld_def)
  moreover have "scanned bugDraws bugWorld = [0, 1, 3, 4]"
    by code_simp
  moreover have "creepAge (spreadCreep bugDraws bugWorld) = [50.2, 20.2, 0, 20.2, 1.2, 0, 0, 0, 0]"
    by (simp add: bugWorld_step)
  ultimately show ?thesis by simp
qed

text \<open>
  Claim C10 (not met by the code). \<open>creepCount\<close> should equal the number of occupied
  cells. In \<open>bugWorld\<close> it does before the step. During the step the resource check at
  cell 4 places a hatchery that occupies cell 4 and counts it; the growth roll for cell 4,
  whose emptiness was tested before the check, then succeeds and counts it again. After
  the step four cells are occupied and \<open>creepCount\<close> is 5.
\<close>

theorem creepCount_counts_twice:
  "creepCount bugWorld = int (occupied bugWorld) \<and>
   creepGrid (spreadCreep bugDraws bugWorld) = [1, 1, 0, 1, 1, 0, 0, 0, 0] \<and>
   occupied (spreadCreep bugDraws bugWorld) = 4 \<and>
   creepCount (spreadCreep bugDraws bugWorld) = 5"
proof -
  have "creepCount bugWorld = int (occupied bugWorld)"
    by (simp add: bugWorld_def demoWorld_def occupied_def)
  then show ?thesis
    by (simp add: bugWorld_step occupied_def)
qed

text \<open>
  Claim C3, as amended. For an unoccupied neighbour \<open>n\<close> inside the grid, with terrain
  type code \<open>t\<close> at most 4, the growth roll compares the random draw with
  \<open>0.002 * B * (1 - height n * 0.5) * terrainTypeMod * directionMod * resourceDiscoveryMod * noiseMod\<close>,
  the modifiers as in the specification, and the cell is occupied exactly when the draw is
  below that value. \<open>B\<close> is the value that \<open>resourceBoost\<close> has when the step begins:
  \<open>spreadCreep\<close> starts the scan with it, the loop over the active edges hands it
  unchanged to the body of every frontier cell, and the body hands it unchanged to the
  roll of each of the eight neighbours. The variable \<open>resourceBoost\<close>, which the
  discoveries of the step raise, is not read by the scan: from a state that differs only
  in that variable the scan ends in a state that differs only in that variable.

  In the example the first neighbour of cell 0 in \<open>mineralWorld\<close> discovers the deposit
  and \<open>resourceBoost\<close> becomes 1.5; the roll of the next neighbour, cell 3, still
  compares the draw 0.005 with 0.0036, not with 0.0054, and leaves the cell empty. In
  \<open>bugWorld\<close> the three discoveries made while cell 0 is scanned raise \<open>resourceBoost\<close>
  to 3, and the cells 1 and 4, scanned later in the same step, leave cell 2 empty at the
  draw 0.005.
\<close>

theorem growth_threshold:
  fixes R B x y dx dy s h t v
  defines "n \<equiv> (y + dy) * cols (sw s) + (x + dx)"
  defines "found \<equiv> map_option resType (snd (checkResource R n (x + dx) (y + dy) (sw s)))"
  defines "w1 \<equiv> fst (checkResource R n (x + dx) (y + dy) (sw s))"
  defines "T \<equiv> threshold B h (terrainOf t) (dx = dirX (startCorner (sw s)))
                  (dy = dirY (startCorner (sw s))) found v"
  shows
  "(inGrid (sw s) (x + dx) (y + dy) \<and> rd (creepGrid (sw s)) n = Some 0 \<and>
    rd (terrainHeight (sw s)) n = Some h \<and> rd (terrainType (sw s)) n = Some t \<and> t \<le> 4 \<and>
    rd (noiseTexture1 (sw s)) n = Some v \<longrightarrow>
      visitNeighbor R B x y (dx, dy) s =
        (if Rep_draw (R (drawn w1)) < T
         then s\<lparr>sw := w1\<lparr>drawn := drawn w1 + 1,
                         creepGrid := wr (creepGrid w1) n 1,
                         creepAge := wr (creepAge w1) n 1,
                         creepCount := creepCount w1 + 1\<rparr>,
                newEdges := setAdd (newEdges s) n,
                hasEmptyNeighbor := True\<rparr>
         else s\<lparr>sw := w1\<lparr>drawn := drawn w1 + 1\<rparr>, hasEmptyNeighbor := True\<rparr>)) \<and>
   (\<not> isSaturated w \<longrightarrow>
      spreadCreep R w =
        finishStep (scanFrom R (resourceBoost w) 0
                      \<lparr>sw = w, newEdges = [], toRemove = [], hasEmptyNeighbor = False\<rparr>)) \<and>
   scanFrom R B i q =
     (if i < length (activeEdges (sw q))
      then scanFrom R B (Suc i) (visitCell R B (activeEdges (sw q) ! i) q)
      else q) \<and>
   visitCell R B idx q =
     finishCell idx
       (if cols (sw q) = 0 then q\<lparr>hasEmptyNeighbor := False\<rparr>
        else fold (visitNeighbor R B (jsRem idx (cols (sw q))) (idx div cols (sw q))) neighbors
               (q\<lparr>hasEmptyNeighbor := False\<rparr>)) \<and>
   reboost c (scanFrom R B i (reboost b q)) = reboost c (scanFrom R B i q)"
proof (intro conjI impI)
  assume a: "inGrid (sw s) (x + dx) (y + dy) \<and> rd (creepGrid (sw s)) n = Some 0 \<and>
    rd (terrainHeight (sw s)) n = Some h \<and> rd (terrainType (sw s)) n = Some t \<and> t \<le> 4 \<and>
    rd (noiseTexture1 (sw s)) n = Some v"
  have "noiseTexture1 w1 = noiseTexture1 (sw s)"
    using checkResource_sameTerrain [of "sw s" R n "x + dx" "y + dy"]
    by (simp add: sameTerrain_def w1_def)
  with a have "rd (noiseTexture1 w1) n = Some v" by simp
  with a have "spreadChance B (sw s) w1 n dx dy (snd (checkResource R n (x + dx) (y + dy) (sw s))) = Some T"
    unfolding T_def found_def by (intro spreadChance_threshold) simp_all
  with a show "visitNeighbor R B x y (dx, dy) s =
        (if Rep_draw (R (drawn w1)) < T
         then s\<lparr>sw := w1\<lparr>drawn := drawn w1 + 1,
                         creepGrid := wr (creepGrid w1) n 1,
                         creepAge := wr (creepAge w1) n 1,
                         creepCount := creepCount w1 + 1\<rparr>,
                newEdges := setAdd (newEdges s) n,
                hasEmptyNeighbor := True\<rparr>
         else s\<lparr>sw := w1\<lparr>drawn := drawn w1 + 1\<rparr>, hasEmptyNeighbor := True\<rparr>)"
    by (simp add: visitNeighbor_def Let_def n_def [symmetric] w1_def [symmetric])
next
  assume "\<not> isSaturated w"
  then show "spreadCreep R w =
        finishStep (scanFrom R (resourceBoost w) 0
                      \<lparr>sw = w, newEdges = [], toRemove = [], hasEmptyNeighbor = False\<rparr>)"
    by (simp add: spreadCreep_def finishStep_def Let_def)
next
  show "scanFrom R B i q =
     (if i < length (activeEdges (sw q))
      then scanFrom R B (Suc i) (visitCell R B (activeEdges (sw q) ! i) q)
      else q)"
    by (rule scanFrom.simps)
next
  show "visitCell R B idx q =
     finishCell idx
       (if cols (sw q) = 0 then q\<lparr>hasEmptyNeighbor := False\<rparr>
        else fold (visitNeighbor R B (jsRem idx (cols (sw q))) (idx div cols (sw q))) neighbors
               (q\<lparr>hasEmptyNeighbor := False\<rparr>))"
    by (simp add: visitCell_def scanNeighbors_def finishCell_def Let_def)
next
  show "reboost c (scanFrom R B i (reboost b q)) = reboost c (scanFrom R B i q)"
    by (rule scanFrom_ignores_boost)
qed


theorem growth_threshold_witness:
  "inGrid mineralWorld (0 + 1) (0 + 0) \<and> rd (creepGrid mineralWorld) 1 = Some 0 \<and>
   rd (terrainHeight mineralWorld) 1 = Some 0.4 \<and> rd (terrainType mineralWorld) 1 = Some 1 \<and>
   (1::nat) \<le> 4 \<and> rd (noiseTexture1 mineralWorld) 1 = Some 0.5 \<and>
   threshold 1 0.4 (terrainOf 1) True False (Some mineral) 0.5 = 0.0072 \<and>
   visitNeighbor lowDraws 1 0 0 (1, 0) (startScan mineralWorld) =
     (startScan mineralWorld)
       \<lparr>sw := (fst (checkResource lowDraws 1 1 0 mineralWorld))\<lparr>drawn := 1\<rparr>,
        hasEmptyNeighbor := True\<rparr> \<and>
   \<not> isSaturated mineralWorld \<and>
   spreadCreep lowDraws mineralWorld =
     finishStep (scanFrom lowDraws (resourceBoost mineralWorld) 0
                   \<lparr>sw = mineralWorld, newEdges = [], toRemove = [], hasEmptyNeighbor = False\<rparr>) \<and>
   scanFrom lowDraws 1 0 (startScan mineralWorld) =
     scanFrom lowDraws 1 1 (visitCell lowDraws 1 0 (startScan mineralWorld)) \<and>
   visitCell lowDraws 1 0 (startScan mineralWorld) =
     finishCell 0 (fold (visitNeighbor lowDraws 1 0 0) neighbors (startScan mineralWorld)) \<and>
   resourceBoost mineralWorld = 1 \<and> resourceBoost (sw afterFirst) = 1.5 \<and>
   inGrid (sw afterFirst) (0 + 0) (0 + 1) \<and> rd (creepGrid (sw afterFirst)) 3 = Some 0 \<and>
   rd (terrainHeight (sw afterFirst)) 3 = Some 0.4 \<and> rd (terrainType (sw afterFirst)) 3 = Some 1 \<and>
   rd (noiseTexture1 (sw afterFirst)) 3 = Some 0.5 \<and>
   threshold 1 0.4 (terrainOf 1) False True None 0.5 = 0.0036 \<and>
   threshold 1.5 0.4 (terrainOf 1) False True None 0.5 = 0.0054 \<and>
   Rep_draw (midDraws 1) = 0.005 \<and>
   visitNeighbor midDraws 1 0 0 (0, 1) afterFirst =
     afterFirst\<lparr>sw := (sw afterFirst)\<lparr>drawn := 2\<rparr>, hasEmptyNeighbor := True\<rparr> \<and>
   creepGrid (spreadCreep midDraws mineralWorld) = [1, 1, 0, 0, 1, 0, 0, 0, 0] \<and>
   scanned lateDraws bugWorld = [0, 1, 3, 4] \<and>
   resourceBoost (spreadCreep lateDraws bugWorld) = 3 \<and>
   creepGrid (spreadCreep lateDraws bugWorld) = [1, 1, 0, 1, 1, 1, 0, 1, 1] \<and>
   reboost 0 (scanFrom lowDraws 1 0 (reboost 3 (startScan mineralWorld))) =
     reboost 0 (scanFrom lowDraws 1 0 (startScan mineralWorld))"
proof -
  have t: "threshold 1 0.4 (terrainOf 1) True False (Some mineral) 0.5 = 0.0072"
    by (simp add: threshold_def terrainOf_def directionMod_def noiseMod_def)
  have d: "Rep_draw (lowDraws k) = 0.009" for k
    by (simp add: lowDraws_def mkDraw.rep_eq)
  have n: "\<not> isSaturated mineralWorld"
    by (simp add: mineralWorld_def demoWorld_def)
  have first: "inGrid mineralWorld (0 + 1) (0 + 0) \<and> rd (creepGrid mineralWorld) 1 = Some 0 \<and>
   rd (terrainHeight mineralWorld) 1 = Some 0.4 \<and> rd (terrainType mineralWorld) 1 = Some 1 \<and>
   (1::nat) \<le> 4 \<and> rd (noiseTexture1 mineralWorld) 1 = Some 0.5 \<and>
   threshold 1 0.4 (terrainOf 1) True False (Some mineral) 0.5 = 0.0072 \<and>
   visitNeighbor lowDraws 1 0 0 (1, 0) (startScan mineralWorld) =
     (startScan mineralWorld)
       \<lparr>sw := (fst (checkResource lowDraws 1 1 0 mineralWorld))\<lparr>drawn := 1\<rparr>,
        hasEmptyNeighbor := True\<rparr> \<and>
   \<not> isSaturated mineralWorld \<and>
   spreadCreep lowDraws mineralWorld =
     finishStep (scanFrom lowDraws (resourceBoost mineralWorld) 0
                   \<lparr>sw = mineralWorld, newEdges = [], toRemove = [], hasEmptyNeighbor = False\<rparr>)"
    using growth_threshold [where s = "startScan mineralWorld" and x = 0 and y = 0 and dx = 1 and dy = 0
        and h = "0.4" and t = 1 and v = "0.5" and B = 1 and R = lowDraws and w = mineralWorld]
      t d n
    by (simp add: startScan_def mineralWorld_reads mineralWorld_check)
  have e: "activeEdges (sw (startScan mineralWorld)) = [0]" "cols (sw (startScan mineralWorld)) = 3"
    "(startScan mineralWorld)\<lparr>hasEmptyNeighbor := False\<rparr> = startScan mineralWorld"
    by (simp_all add: startScan_def mineralWorld_def demoWorld_def)
  have scan: "scanFrom lowDraws 1 0 (startScan mineralWorld) =
     scanFrom lowDraws 1 1 (visitCell lowDraws 1 0 (startScan mineralWorld))"
    using growth_threshold [where q = "startScan mineralWorld" and i = 0 and B = 1 and R = lowDraws]
    by (simp add: e)
  have cell: "visitCell lowDraws 1 0 (startScan mineralWorld) =
     finishCell 0 (fold (visitNeighbor lowDraws 1 0 0) neighbors (startScan mineralWorld))"
    using growth_threshold [where q = "startScan mineralWorld" and idx = 0 and B = 1 and R = lowDraws]
    by (simp add: e jsRem_def)
  have t2: "threshold 1 0.4 (terrainOf 1) False True None 0.5 = 0.0036"
    "threshold 1.5 0.4 (terrainOf 1) False True None 0.5 = 0.0054"
    by (simp_all add: threshold_def terrainOf_def directionMod_def noiseMod_def)
  have d2: "Rep_draw (midDraws k) = 0.005" for k
    by (simp add: midDraws_def mkDraw.rep_eq)
  have second: "visitNeighbor midDraws 1 0 0 (0, 1) afterFirst =
     afterFirst\<lparr>sw := (sw afterFirst)\<lparr>drawn := 2\<rparr>, hasEmptyNeighbor := True\<rparr>"
    using growth_threshold [where s = afterFirst and x = 0 and y = 0 and dx = 0 and dy = 1
        and h = "0.4" and t = 1 and v = "0.5" and B = 1 and R = midDraws]
      t2(1) d2
    by (simp add: afterFirst_reads)
  have b: "resourceBoost mineralWorld = 1"
    by (simp add: mineralWorld_def demoWorld_def)
  have free: "reboost 0 (scanFrom lowDraws 1 0 (reboost 3 (startScan mineralWorld))) =
     reboost 0 (scanFrom lowDraws 1 0 (startScan mineralWorld))"
    using growth_threshold [where q = "startScan mineralWorld" and i = 0 and B = 1 and R = lowDraws
        and b = 3 and c = 0]
    by simp
  from afterFirst_reads(1) have i2: "inGrid (sw afterFirst) (0 + 0) (0 + 1)" by simp
  from first scan cell b afterFirst_reads(10) i2 afterFirst_reads(2-5) t2 d2 [of 1] second
    midDraws_step(1) lateDraws_step(1,3,2) free
  show ?thesis by (intro conjI) (elim conjE; assumption)+
qed

text \<open>
  Claim C3 as stated fails when \<open>resourceBoost\<close> is read at the time of the comparison.
  In \<open>mineralWorld\<close> the resource check at cell 1 discovers the deposit and raises
  \<open>resourceBoost\<close> from 1 to 1.5 before the roll. With that value the threshold of the
  claim is 0.0108, above the draw 0.009, so the cell would be occupied; the code compares
  with 0.0072, computed from the boost of 1 at the start of the step, and leaves it empty.
\<close>

theorem threshold_ignores_new_boost:
  "resourceBoost mineralWorld = 1 \<and>
   resourceBoost (fst (checkResource lowDraws 1 1 0 mineralWorld)) = 1.5 \<and>
   Rep_draw (lowDraws (drawn (fst (checkResource lowDraws 1 1 0 mineralWorld)))) = 0.009 \<and>
   threshold (resourceBoost (fst (checkResource lowDraws 1 1 0 mineralWorld)))
     0.4 MidGround True False (Some mineral) 0.5 = 0.0108 \<and>
   spreadChance (resourceBoost mineralWorld) mineralWorld
     (fst (checkResource lowDraws 1 1 0 mineralWorld)) 1 1 0
     (snd (checkResource lowDraws 1 1 0 mineralWorld)) = Some 0.0072 \<and>
   creepGrid (spreadCreep lowDraws mineralWorld) = [1, 0, 0, 0, 0, 0, 0, 0, 0]"
proof -
  have "resourceBoost mineralWorld = 1"
    by (simp add: mineralWorld_def demoWorld_def)
  moreover have "Rep_draw (lowDraws k) = 0.009" for k
    by (simp add: lowDraws_def mkDraw.rep_eq)
  moreover have "threshold 1.5 0.4 MidGround True False (Some mineral) 0.5 = 0.0108"
    by (simp add: threshold_def directionMod_def noiseMod_def)
  moreover have "spreadChance 1 mineralWorld
     (mineralWorld\<lparr>minerals := [dep 2 0 True], resourceBoost := 1.5, mineralsGathered := 1,
        buildings := [\<lparr>bldX = 0, bldY = 0, bldType = hatchery, pulse = 0\<rparr>,
                      \<lparr>bldX = 2, bldY = 0, bldType = mineralpatch, pulse = 0\<rparr>]\<rparr>) 1 1 0
     (Some \<lparr>resType = mineral, boost = 2\<rparr>) = Some 0.0072"
    by (simp add: spreadChance_def typeModAt_def terrainSpreadMods_def dirModOf_def resModOf_def
        noiseModAt_def mineralWorld_def demoWorld_def rd_def Let_def)
  ultimately show ?thesis
    using mineralWorld_step by (simp add: mineralWorld_check)
qed

text \<open>
  Claim C9. After terrain generation the type of the cell \<open>(x, y)\<close> is the code of
  exactly one of the five terrain types: Water when the cell is in the expanded water
  mask; otherwise CliffWall when the largest absolute height difference to its neighbours
  in the grid in the four directions exceeds 0.08; otherwise LowGround below height 0.32,
  MidGround below 0.6 and HighPlateau above. In particular a water cell is never turned
  into a cliff. The statement holds for every height field and water mask of the size of
  the grid, and \<open>initGrid\<close> computes the terrain types from its height field and its
  expanded water mask in this way.
\<close>

theorem terrain_classification:
  "(length h = nat (c * r) \<and> length ew = nat (c * r) \<and> 0 \<le> x \<and> x < c \<and> 0 \<le> y \<and> y < r \<longrightarrow>
      detectCliffs c r h (assignTypes c r h ew) ! nat (y * c + x) = terrainCode (classify c r h ew x y)) \<and>
   terrainType (initGrid R width height) =
     detectCliffs (gridCols width) (gridCols height) (terrainHeight (initGrid R width height))
       (assignTypes (gridCols width) (gridCols height) (terrainHeight (initGrid R width height))
          (expandedWaterOf R (gridCols width) (gridCols height))) \<and>
   length (terrainHeight (initGrid R width height)) = nat (gridCols width * gridCols height) \<and>
   length (expandedWaterOf R (gridCols width) (gridCols height)) = nat (gridCols width * gridCols height)"
proof (intro conjI impI)
  assume a: "length h = nat (c * r) \<and> length ew = nat (c * r) \<and> 0 \<le> x \<and> x < c \<and> 0 \<le> y \<and> y < r"
  then have xy: "0 \<le> x" "x < c" "0 \<le> y" "y < r" by simp_all
  from cell_index_less [OF xy] have k: "nat (y * c + x) < nat (c * r)" by simp
  have "detectCliffs c r h (assignTypes c r h ew) ! nat (y * c + x) =
          (if assignTypes c r h ew ! nat (y * c + x) = 4 then 4
           else if isCliff c r h (x, y) then 3
           else assignTypes c r h ew ! nat (y * c + x))"
    by (rule detectCliffs_nth [OF xy]) simp
  then show "detectCliffs c r h (assignTypes c r h ew) ! nat (y * c + x) = terrainCode (classify c r h ew x y)"
    by (simp add: assignTypes_nth [OF k] heightType_def classify_def isCliff_def)
qed (simp_all add: initGrid_fields makeTerrain_types)

theorem terrain_classification_witness:
  "length spikeHeight = nat (3 * 3) \<and> length spikeWater = nat (3 * 3) \<and>
   (0::int) \<le> 1 \<and> (1::int) < 3 \<and> (0::int) \<le> 0 \<and> (0::int) < 3 \<and>
   classify 3 3 spikeHeight spikeWater 1 0 = Water \<and>
   detectCliffs 3 3 spikeHeight (assignTypes 3 3 spikeHeight spikeWater) ! nat (0 * 3 + 1) = terrainCode Water \<and>
   classify 3 3 spikeHeight spikeWater 1 1 = CliffWall \<and>
   detectCliffs 3 3 spikeHeight (assignTypes 3 3 spikeHeight spikeWater) ! nat (1 * 3 + 1) = terrainCode CliffWall \<and>
   classify 3 3 spikeHeight spikeWater 0 1 = CliffWall \<and>
   classify 3 3 spikeHeight spikeWater 0 0 = LowGround"
proof -
  have c: "classify 3 3 spikeHeight spikeWater 1 0 = Water"
    "classify 3 3 spikeHeight spikeWater 1 1 = CliffWall"
    "classify 3 3 spikeHeight spikeWater 0 1 = CliffWall"
    "classify 3 3 spikeHeight spikeWater 0 0 = LowGround"
    by code_simp+
  have l: "length spikeHeight = nat (3 * 3)" "length spikeWater = nat (3 * 3)"
    by (simp_all add: spikeHeight_def spikeWater_def)
  show ?thesis
    using terrain_classification [where h = spikeHeight and ew = spikeWater and c = 3 and r = 3 and x = 1 and y = 0]
      terrain_classification [where h = spikeHeight and ew = spikeWater and c = 3 and r = 3 and x = 1 and y = 1]
      c l
    by simp
qed

text \<open>
  Claim C5. On a grid without cells (\<open>cols * rows = 0\<close>) world generation followed by a
  step yields a world in which no cell is occupied and the saturation flag is set, and a
  further step changes nothing. Generation leaves the seed index in \<open>activeEdges\<close> and
  the flag unset; the first step finds no neighbour in the grid, removes the index and sets
  the flag, since \<open>creepCount\<close> is 1 and 0.98 times the number of cells is 0. Both
  functions are total here: the reads outside the (empty) arrays yield \<open>undefined\<close> and
  the writes are ignored, which is what \<open>rd\<close> and \<open>wr\<close> model, and no operation of the
  source throws on this path.
\<close>

theorem zero_sized_grid:
  "gridCols width * gridCols height = 0 \<longrightarrow>
     creepGrid (initGrid R width height) = [] \<and>
     spreadCreep R (initGrid R width height) =
       (initGrid R width height)\<lparr>activeEdges := [], isSaturated := True\<rparr> \<and>
     creepGrid (spreadCreep R (initGrid R width height)) = [] \<and>
     isSaturated (spreadCreep R (initGrid R width height)) \<and>
     spreadCreep R (spreadCreep R (initGrid R width height)) = spreadCreep R (initGrid R width height)"
proof
  assume z: "gridCols width * gridCols height = 0"
  let ?w = "initGrid R width height"
  from z have n: "nat (gridCols width * gridCols height) = 0"
    by (simp only: nat_0)
  have g: "creepGrid ?w = []" and a: "creepAge ?w = []"
    by (simp_all only: initGrid_fields n replicate_0 wr_Nil)
  from z have c: "cols ?w = 0 \<or> rows ?w = 0"
    by (simp add: initGrid_fields)
  have "spreadCreep R ?w = ?w\<lparr>activeEdges := [], isSaturated := True\<rparr>"
  proof (rule spreadCreep_no_cells [OF c a])
    show "\<not> isSaturated ?w" by (simp add: initGrid_fields)
    show "activeEdges ?w =
      [snd (seedOf R (gridCols width) (gridCols height)) * gridCols width +
       fst (seedOf R (gridCols width) (gridCols height))]"
      by (rule initGrid_fields)
    show "totalVisibleCells ?w = 0" using z by (simp only: initGrid_fields)
    show "0 \<le> creepCount ?w" by (simp add: initGrid_fields)
  qed
  with g show "creepGrid ?w = [] \<and>
     spreadCreep R ?w = ?w\<lparr>activeEdges := [], isSaturated := True\<rparr> \<and>
     creepGrid (spreadCreep R ?w) = [] \<and> isSaturated (spreadCreep R ?w) \<and>
     spreadCreep R (spreadCreep R ?w) = spreadCreep R ?w"
    by (simp add: spreadCreep_saturated)
qed

theorem zero_sized_grid_witness:
  "gridCols 0 * gridCols 600 = 0 \<and>
   creepGrid (initGrid lowDraws 0 600) = [] \<and>
   creepGrid (spreadCreep lowDraws (initGrid lowDraws 0 600)) = [] \<and>
   isSaturated (spreadCreep lowDraws (initGrid lowDraws 0 600)) \<and>
   spreadCreep lowDraws (spreadCreep lowDraws (initGrid lowDraws 0 600)) =
     spreadCreep lowDraws (initGrid lowDraws 0 600)"
proof -
  have z: "gridCols 0 * gridCols 600 = 0"
    by (simp add: gridCols_def)
  from zero_sized_grid [where width = 0 and height = 600 and R = lowDraws, rule_format, OF z] z
  show ?thesis by (simp add: spreadCreep_saturated)
qed

text \<open>
  Claim C1 (amended). In every world reached from \<open>initGrid\<close> by steps, on a grid with
  \<open>cols * rows > 0\<close>, and after a step from any world in which this already holds: every
  member of \<open>activeEdges\<close> is an occupied cell, and every occupied cell with at least
  one unoccupied in-bounds 8-neighbour is a member. A step that runs (the world is not
  saturated) removes every member that has no unoccupied neighbour when the step begins,
  and a cell that a step drops from \<open>activeEdges\<close> has no unoccupied neighbour left.
  A member need not have an unoccupied neighbour: cells are added without a look at their
  neighbours, and a member whose last free neighbour is taken during a step can still be
  a member after it; the next step that runs removes it.
\<close>

theorem frontier_invariant:
  "(0 < gridCols width * gridCols height \<longrightarrow>
      frontierOk ((spreadCreep R ^^ n) (initGrid R width height))) \<and>
   (frontierOk w \<longrightarrow>
      frontierOk (spreadCreep R w) \<and>
      (\<forall>i \<in> set (activeEdges (spreadCreep R w)). occupiedAt (spreadCreep R w) i) \<and>
      (\<forall>i. occupiedAt (spreadCreep R w) i \<and> hasUnoccupiedNeighbor (spreadCreep R w) i
           \<longrightarrow> i \<in> set (activeEdges (spreadCreep R w))) \<and>
      (\<forall>i \<in> set (activeEdges w) - set (activeEdges (spreadCreep R w)).
           \<not> hasUnoccupiedNeighbor (spreadCreep R w) i) \<and>
      (\<not> isSaturated w \<longrightarrow>
         (\<forall>i \<in> set (activeEdges w).
            \<not> hasUnoccupiedNeighbor w i \<longrightarrow> i \<notin> set (activeEdges (spreadCreep R w)))))"
proof (intro conjI impI)
  assume "0 < gridCols width * gridCols height"
  with gridCols_nonneg [of width] gridCols_nonneg [of height]
  have "0 < gridCols width" "0 < gridCols height"
    by (simp_all add: zero_less_mult_iff)
  then have "frontierOk (initGrid R width height)" by (rule initGrid_frontierOk)
  then show "frontierOk ((spreadCreep R ^^ n) (initGrid R width height))"
    by (rule run_frontierOk)
next
  assume w: "frontierOk w"
  let ?v = "spreadCreep R w"
  from w show v: "frontierOk ?v" by (rule spreadCreep_frontierOk)
  from v show e: "\<forall>i \<in> set (activeEdges ?v). occupiedAt ?v i"
    by (simp add: frontierOk_def frontierInv_def)
  from v show c: "\<forall>i. occupiedAt ?v i \<and> hasUnoccupiedNeighbor ?v i \<longrightarrow> i \<in> set (activeEdges ?v)"
    by (simp add: frontierOk_def frontierInv_def)
  show "\<forall>i \<in> set (activeEdges w) - set (activeEdges ?v). \<not> hasUnoccupiedNeighbor ?v i"
  proof
    fix i assume i: "i \<in> set (activeEdges w) - set (activeEdges ?v)"
    with w have "occupiedAt w i"
      by (simp add: frontierOk_def frontierInv_def)
    with w have "occupiedAt ?v i" by (rule spreadCreep_occupied)
    with c i show "\<not> hasUnoccupiedNeighbor ?v i" by auto
  qed
  assume n: "\<not> isSaturated w"
  show "\<forall>i \<in> set (activeEdges w). \<not> hasUnoccupiedNeighbor w i \<longrightarrow> i \<notin> set (activeEdges ?v)"
  proof (intro ballI impI)
    fix i assume "i \<in> set (activeEdges w)" "\<not> hasUnoccupiedNeighbor w i"
    with w n show "i \<notin> set (activeEdges ?v)" by (rule spreadCreep_removes)
  qed
qed

theorem frontier_invariant_witness:
  "0 < gridCols 8 * gridCols 8 \<and>
   activeEdges (initGrid zeroDraws 8 8) = [0] \<and>
   occupiedAt (initGrid zeroDraws 8 8) 0 \<and>
   \<not> isSaturated (initGrid zeroDraws 8 8) \<and>
   \<not> hasUnoccupiedNeighbor (initGrid zeroDraws 8 8) 0 \<and>
   0 \<notin> set (activeEdges (spreadCreep zeroDraws (initGrid zeroDraws 8 8))) \<and>
   activeEdges (demoWorld [] []) = [0] \<and>
   activeEdges (spreadCreep zeroDraws (demoWorld [] [])) = [0, 1, 3, 4] \<and>
   occupiedAt (spreadCreep zeroDraws (demoWorld [] [])) 0 \<and>
   occupiedAt (spreadCreep zeroDraws (demoWorld [] [])) 1 \<and>
   occupiedAt (spreadCreep zeroDraws (demoWorld [] [])) 3 \<and>
   occupiedAt (spreadCreep zeroDraws (demoWorld [] [])) 4 \<and>
   hasUnoccupiedNeighbor (spreadCreep zeroDraws (demoWorld [] [])) 1 \<and>
   1 \<in> set (activeEdges (spreadCreep zeroDraws (demoWorld [] []))) \<and>
   \<not> isSaturated (spreadCreep zeroDraws (demoWorld [] [])) \<and>
   \<not> hasUnoccupiedNeighbor (spreadCreep zeroDraws (demoWorld [] [])) 0 \<and>
   0 \<notin> set (activeEdges (spreadCreep zeroDraws (spreadCreep zeroDraws (demoWorld [] []))))"
proof -
  let ?W = "initGrid zeroDraws 8 8"
  let ?D = "demoWorld [] []"
  let ?V = "spreadCreep zeroDraws (demoWorld [] [])"
  have g: "gridCols 8 = 1"
    by (simp add: gridCols_def cellSize_def)
  then have z: "0 < gridCols 8 * gridCols 8" by simp
  note t1 = frontier_invariant [where width = 8 and height = 8 and R = zeroDraws and n = 0 and w = ?W]
  note t2 = frontier_invariant [where width = 8 and height = 8 and R = zeroDraws and n = 0 and w = ?D]
  note t3 = frontier_invariant [where width = 8 and height = 8 and R = zeroDraws and n = 0 and w = ?V]
  from t1 [THEN conjunct1, THEN mp, OF z] have fw: "frontierOk ?W" by simp
  from seedOf_index [of 1 1 zeroDraws]
  have k: "snd (seedOf zeroDraws 1 1) * 1 + fst (seedOf zeroDraws 1 1) = 0" by simp
  have e: "activeEdges ?W = [0]"
    unfolding initGrid_fields(11) g k by (rule refl)
  have c: "cols ?W = 1" "rows ?W = 1"
    unfolding initGrid_fields(1,2) g by (rule refl)+
  from fw have "\<forall>i \<in> set (activeEdges ?W). occupiedAt ?W i"
    unfolding frontierOk_def frontierInv_def by (elim conjE)
  then have o: "occupiedAt ?W 0"
    unfolding e by simp
  have ns: "\<not> isSaturated ?W"
    unfolding initGrid_fields(5) by simp
  have nn: "\<not> hasUnoccupiedNeighbor ?W 0"
    unfolding hasUnoccupiedNeighbor_def emptyAt_def inGrid_def c neighbors_def by simp
  from t1 [THEN conjunct2, THEN mp, OF fw] ns
  have "\<forall>i \<in> set (activeEdges ?W).
          \<not> hasUnoccupiedNeighbor ?W i \<longrightarrow> i \<notin> set (activeEdges (spreadCreep zeroDraws ?W))"
    by blast
  with nn have r1: "0 \<notin> set (activeEdges (spreadCreep zeroDraws ?W))"
    unfolding e by simp
  note p2 = t2 [THEN conjunct2, THEN mp, OF frontierOk_demoWorld]
  from p2 have fv: "frontierOk ?V" by (elim conjE)
  from p2 have ov: "\<forall>i \<in> set (activeEdges ?V). occupiedAt ?V i" by (elim conjE)
  from p2 have cv: "\<forall>i. occupiedAt ?V i \<and> hasUnoccupiedNeighbor ?V i \<longrightarrow> i \<in> set (activeEdges ?V)"
    by (elim conjE)
  from ov have o4: "occupiedAt ?V 0" "occupiedAt ?V 1" "occupiedAt ?V 3" "occupiedAt ?V 4"
    unfolding demoWorld_step(1) by simp_all
  from cv o4(2) demoWorld_step(3) have m: "1 \<in> set (activeEdges ?V)" by blast
  from t3 [THEN conjunct2, THEN mp, OF fv] demoWorld_unsaturated
  have "\<forall>i \<in> set (activeEdges ?V).
          \<not> hasUnoccupiedNeighbor ?V i \<longrightarrow> i \<notin> set (activeEdges (spreadCreep zeroDraws ?V))"
    by blast
  with demoWorld_step(4) have r2: "0 \<notin> set (activeEdges (spreadCreep zeroDraws ?V))"
    unfolding demoWorld_step(1) by simp
  have d: "activeEdges ?D = [0]" by (simp add: demoWorld_def)
  from z e o ns nn r1 d demoWorld_step(1) o4 demoWorld_step(3) m demoWorld_unsaturated
    demoWorld_step(4) r2
  show ?thesis by (intro conjI)
qed

text \<open>
  The claim as it is written also asks every member of \<open>activeEdges\<close> to have an
  unoccupied neighbour. On the 3 x 3 world without deposits, with every draw 0, the step
  from the frontier \<open>{0}\<close> occupies the cells 1, 3 and 4, the three neighbours of cell 0;
  cell 0 found them empty during its scan, so it is not removed and is a member after the
  step although none of its neighbours is unoccupied.
\<close>

theorem enclosed_cell_stays_in_frontier:
  "0 < cols (demoWorld [] []) * rows (demoWorld [] []) \<and>
   activeEdges (demoWorld [] []) = [0] \<and>
   creepGrid (spreadCreep zeroDraws (demoWorld [] [])) = [1, 1, 0, 1, 1, 0, 0, 0, 0] \<and>
   0 \<in> set (activeEdges (spreadCreep zeroDraws (demoWorld [] []))) \<and>
   \<not> hasUnoccupiedNeighbor (spreadCreep zeroDraws (demoWorld [] [])) 0"
proof -
  have "0 < cols (demoWorld [] []) * rows (demoWorld [] [])" "activeEdges (demoWorld [] []) = [0]"
    by (simp_all add: demoWorld_def)
  moreover have "creepGrid (spreadCreep zeroDraws (demoWorld [] [])) = [1, 1, 0, 1, 1, 0, 0, 0, 0]"
    "activeEdges (spreadCreep zeroDraws (demoWorld [] [])) = [0, 1, 3, 4]"
    "\<not> hasUnoccupiedNeighbor (spreadCreep zeroDraws (demoWorld [] [])) 0"
    by code_simp+
  ultimately show ?thesis by simp
qed

end
